theory Spec2Isabelle
  imports Complex_Main "HOL-Library.Sublist"
begin

section \<open>The consumer queue of liblsl (\<open>src/consumer_queue.h\<close>)\<close>

text \<open>
  The queue is a ring buffer of \<open>size_\<close> items with a producer-owned write index and a
  consumer-shared read index. This theory embeds the member functions of the header as
  functions on an explicit queue state and verifies them for executions in which the
  calls of \<open>try_push\<close> and \<open>try_pop\<close> run one after the other (each call runs to completion
  before the next one starts). Memory orderings are outside this model, and so is
  pre-emption inside a call, with one exception: the state in which a consumer stands
  between the compare-and-swap of \<open>try_pop\<close> and its marker store is the result of the
  loop of \<open>try_pop\<close>, and \<open>push_sample\<close> is evaluated there as well.

  Conventions of the embedding:
  \<^item> the members \<open>buffer_\<close>, \<open>size_\<close>, \<open>wrap_at_\<close>, \<open>done_sync_\<close>, \<open>write_idx_\<close> and
    \<open>read_idx_\<close> lose their trailing underscore, which is not admitted in a constant name;
    \<open>size_\<close> becomes \<open>size_q\<close> and \<open>item_t::value\<close> becomes \<open>item_value\<close>;
  \<^item> \<open>sample_p\<close> is a shared-ownership handle that may be null: a handle to a sample \<open>s\<close>
    is \<open>Some s\<close>, the null handle is \<open>None\<close>; a moved-from handle is null;
  \<^item> \<open>std::size_t\<close> values are natural numbers. The only additions of the header are
    \<open>x + 1\<close> and \<open>x + size_\<close> in \<open>add_wrap\<close>, applied to indices below \<open>wrap_at_\<close>; with
    \<open>wrap_at_ = 2 * size_\<close> they stay below \<open>3 * size_\<close>, far below \<open>2 ^ 64\<close> for every
    buffer that fits into the address space, so they do not wrap;
  \<^item> a call that would index \<open>buffer_\<close> outside the allocated array, or divide by a zero
    \<open>size_\<close>, has no defined behaviour in C++; the model returns a \<open>fault\<close> there;
  \<^item> a loop that need not end (\<open>for (;;)\<close>, \<open>while\<close>) is a partial function with result
    \<open>None\<close> when it does not return;
  \<^item> the synchronisation calls a function makes (the fence, the lock of \<open>mut_\<close>, the
    calls on \<open>cv_\<close>) are returned as a list of \<open>event\<close>s; \<open>mut_\<close> and \<open>cv_\<close> are no part
    of the state, and neither are \<open>registry_\<close> and \<open>has_waiter_\<close>, which no function of
    the header reads.
\<close>

subsection \<open>State\<close>

type_synonym 'a sample_p = "'a option"

record 'a item_t =
  seq_state :: nat
  item_value :: "'a sample_p"

record 'a consumer_queue =
  buffer :: "'a item_t list"
  size_q :: nat
  wrap_at :: nat
  done_sync :: bool
  write_idx :: nat
  read_idx :: nat

datatype fault = Division_by_zero | Out_of_bounds

datatype event = Acquire_fence | Lock_mutex | Notify_one | Wait_for real

subsection \<open>Helpers of the header\<close>

text \<open>\<open>add_wrap(x, delta)\<close>: add a delta to an index and wrap at \<open>wrap_at_\<close>.\<close>

definition add_wrap :: "'a consumer_queue \<Rightarrow> nat \<Rightarrow> nat \<Rightarrow> nat" where
  "add_wrap q x delta =
     (let xp = x + delta in if xp \<ge> wrap_at q then xp - wrap_at q else xp)"

text \<open>
  The position of \<open>buffer_[idx % size_]\<close> in the array: a fault when \<open>size_\<close> is zero or
  the position lies outside the array.
\<close>

definition item_index :: "'a consumer_queue \<Rightarrow> nat \<Rightarrow> fault + nat" where
  "item_index q idx =
     (if size_q q = 0 then Inl Division_by_zero
      else if idx mod size_q q < length (buffer q) then Inr (idx mod size_q q)
      else Inl Out_of_bounds)"

text \<open>
  \<open>copy_or_move(dst, src)\<close>: both overloads leave the source's handle in \<open>dst\<close>; the
  result is the new \<open>dst\<close>.
\<close>

definition copy_or_move :: "'a sample_p \<Rightarrow> 'a sample_p \<Rightarrow> 'a sample_p" where
  "copy_or_move dst src = src"

text \<open>
  \<open>move_or_drop(src, result...)\<close> has two overloads, chosen by the pack \<open>result...\<close>.
  Without destination the body is empty; with a destination the handle is moved from
  \<open>src\<close> into it. Each returns the new \<open>src\<close> and the new pack (\<open>unit\<close> for the empty
  pack).
\<close>

definition move_or_drop0 :: "'a sample_p \<Rightarrow> unit \<Rightarrow> 'a sample_p \<times> unit" where
  "move_or_drop0 src u = (src, ())"

definition move_or_drop1 :: "'a sample_p \<Rightarrow> 'a sample_p \<Rightarrow> 'a sample_p \<times> 'a sample_p" where
  "move_or_drop1 src dst = (None, src)"

subsection \<open>\<open>try_push\<close> and \<open>try_pop\<close>\<close>

definition try_push :: "'a consumer_queue \<Rightarrow> 'a sample_p \<Rightarrow> fault + bool \<times> 'a consumer_queue" where
  "try_push q sample =
     (let write_index = write_idx q;
          next_idx = add_wrap q write_index 1
      in case item_index q write_index of
           Inl e \<Rightarrow> Inl e
         | Inr i \<Rightarrow>
             if write_index \<noteq> seq_state (buffer q ! i) then Inr (False, q)
             else
               (let q1 = q\<lparr>write_idx := next_idx\<rparr>;
                    q2 = q1\<lparr>buffer := (buffer q1)
                           [i := (buffer q1 ! i)\<lparr>item_value :=
                                   copy_or_move (item_value (buffer q1 ! i)) sample\<rparr>]\<rparr>;
                    q3 = q2\<lparr>buffer := (buffer q2)
                           [i := (buffer q2 ! i)\<lparr>seq_state := next_idx\<rparr>]\<rparr>
                in Inr (True, q3)))"

text \<open>
  The \<open>for (;;)\<close> loop of \<open>try_pop\<close>, with the local \<open>read_index\<close> as argument. It is left
  by \<open>break\<close> with the claimed \<open>read_index\<close> and the position of \<open>item\<close> (result
  \<open>Some (read_index, i)\<close>), or by \<open>return false\<close> (result \<open>None\<close>).
  \<open>compare_exchange_weak(read_index, next_idx)\<close> stores \<open>next_idx\<close> when \<open>read_idx_\<close> equals
  \<open>read_index\<close>, and loads \<open>read_idx_\<close> into \<open>read_index\<close> otherwise; a spurious failure
  repeats the same iteration and is not modelled.
\<close>

partial_function (option) try_pop_loop ::
  "'a consumer_queue \<Rightarrow> nat \<Rightarrow> (fault + (nat \<times> nat) option \<times> 'a consumer_queue) option" where
  "try_pop_loop q read_index =
     (case item_index q read_index of
        Inl e \<Rightarrow> Some (Inl e)
      | Inr i \<Rightarrow>
          (let seq = seq_state (buffer q ! i);
               next_idx = add_wrap q read_index 1
           in if seq = next_idx then
                (if read_idx q = read_index
                 then Some (Inr (Some (read_index, i), q\<lparr>read_idx := next_idx\<rparr>))
                 else try_pop_loop q (read_idx q))
              else if seq = read_index then Some (Inr (None, q))
              else try_pop_loop q (read_idx q)))"

declare try_pop_loop.simps [code]

text \<open>
  \<open>try_pop(result...)\<close> is a template over the pack \<open>result...\<close>: the first argument
  is the overload of \<open>move_or_drop\<close> its instance calls, the last one the pack. The
  result is the returned flag, the pack after the call and the queue.
\<close>

definition try_pop ::
  "('a sample_p \<Rightarrow> 'p \<Rightarrow> 'a sample_p \<times> 'p) \<Rightarrow> 'a consumer_queue \<Rightarrow> 'p \<Rightarrow>
     (fault + bool \<times> 'p \<times> 'a consumer_queue) option" where
  "try_pop move_or_drop q result =
     (case try_pop_loop q (read_idx q) of
        None \<Rightarrow> None
      | Some (Inl e) \<Rightarrow> Some (Inl e)
      | Some (Inr (None, q1)) \<Rightarrow> Some (Inr (False, result, q1))
      | Some (Inr (Some (read_index, i), q1)) \<Rightarrow>
          (let (src, result') = move_or_drop (item_value (buffer q1 ! i)) result;
               q2 = q1\<lparr>buffer := (buffer q1)[i := (buffer q1 ! i)\<lparr>item_value := src\<rparr>]\<rparr>;
               q3 = q2\<lparr>buffer := (buffer q2)
                      [i := (buffer q2 ! i)\<lparr>seq_state := add_wrap q2 read_index (size_q q2)\<rparr>]\<rparr>
           in Some (Inr (True, result', q3))))"

subsection \<open>\<open>push_sample\<close> and \<open>pop_sample\<close>\<close>

text \<open>
  The \<open>while (!try_push(sample))\<close> loop of \<open>push_sample\<close>; the events made so far are an
  argument. The return value of the forced \<open>try_pop()\<close> is ignored, as in the source.
\<close>

partial_function (option) push_sample_loop ::
  "'a consumer_queue \<Rightarrow> 'a sample_p \<Rightarrow> event list \<Rightarrow> (fault + 'a consumer_queue \<times> event list) option" where
  "push_sample_loop q sample evs =
     (case try_push q sample of
        Inl e \<Rightarrow> Some (Inl e)
      | Inr (success, q1) \<Rightarrow>
          if success then Some (Inr (q1, evs))
          else
            (let q2 = (if \<not> done_sync q1 then q1\<lparr>done_sync := True\<rparr> else q1);
                 evs2 = (if \<not> done_sync q1 then evs @ [Acquire_fence] else evs)
             in case try_pop move_or_drop0 q2 () of
                  None \<Rightarrow> None
                | Some (Inl e) \<Rightarrow> Some (Inl e)
                | Some (Inr (claimed, u, q3)) \<Rightarrow> push_sample_loop q3 sample evs2))"

declare push_sample_loop.simps [code]

definition push_sample ::
  "'a consumer_queue \<Rightarrow> 'a sample_p \<Rightarrow> (fault + 'a consumer_queue \<times> event list) option" where
  "push_sample q sample =
     (case push_sample_loop q sample [] of
        None \<Rightarrow> None
      | Some (Inl e) \<Rightarrow> Some (Inl e)
      | Some (Inr (q1, evs)) \<Rightarrow> Some (Inr (q1, evs @ [Lock_mutex, Notify_one])))"

text \<open>
  \<open>cv_.wait_for(lk, sec, pred)\<close> of the standard library with \<open>pred\<close> the call
  \<open>try_pop(result)\<close>: \<open>while (!pred()) if (wait_until(lk, t) == timeout) return pred();
  return true;\<close>. The argument \<open>wakeups\<close> is the number of times the waiting thread is
  woken before the timeout expires. No other thread runs in this model, so the queue a
  woken thread sees is the one it left.
\<close>

fun wait_for ::
  "'a consumer_queue \<Rightarrow> 'a sample_p \<Rightarrow> nat \<Rightarrow> (fault + bool \<times> 'a sample_p \<times> 'a consumer_queue) option" where
  "wait_for q result wakeups =
     (case try_pop move_or_drop1 q result of
        None \<Rightarrow> None
      | Some (Inl e) \<Rightarrow> Some (Inl e)
      | Some (Inr (ok, r1, q1)) \<Rightarrow>
          if ok then Some (Inr (True, r1, q1))
          else
            (case wakeups of
               0 \<Rightarrow>
                 (case try_pop move_or_drop1 q1 r1 of
                    None \<Rightarrow> None
                  | Some (Inl e) \<Rightarrow> Some (Inl e)
                  | Some (Inr (ok2, r2, q2)) \<Rightarrow> Some (Inr (ok2, r2, q2)))
             | Suc n \<Rightarrow> wait_for q1 r1 n))"

text \<open>
  \<open>pop_sample(timeout)\<close>, with the number of wake-ups of its wait. The timeout is a
  real number (the source compares the \<open>double\<close> with \<open>0.0\<close> and passes it on). The result
  is the returned handle, the queue and the events.
\<close>

definition pop_sample ::
  "'a consumer_queue \<Rightarrow> real \<Rightarrow> nat \<Rightarrow> (fault + 'a sample_p \<times> 'a consumer_queue \<times> event list) option" where
  "pop_sample q timeout wakeups =
     (let result = None
      in case try_pop move_or_drop1 q result of
           None \<Rightarrow> None
         | Some (Inl e) \<Rightarrow> Some (Inl e)
         | Some (Inr (success, r1, q1)) \<Rightarrow>
             if \<not> success \<and> timeout > 0 then
               (case try_pop move_or_drop1 q1 r1 of
                  None \<Rightarrow> None
                | Some (Inl e) \<Rightarrow> Some (Inl e)
                | Some (Inr (ok, r2, q2)) \<Rightarrow>
                    if \<not> ok then
                      (case wait_for q2 r2 wakeups of
                         None \<Rightarrow> None
                       | Some (Inl e) \<Rightarrow> Some (Inl e)
                       | Some (Inr (ok3, r3, q3)) \<Rightarrow>
                           Some (Inr (r3, q3, [Lock_mutex, Wait_for timeout])))
                    else Some (Inr (r2, q2, [Lock_mutex])))
             else Some (Inr (r1, q1, [])))"

subsection \<open>Constructor and accounting operations\<close>

text \<open>
  Modelled from the spec: the constructor \<open>consumer_queue(size, registry)\<close> is declared in
  the header and defined elsewhere. The spec gives \<open>C = size\<close> slots with
  \<open>readiness[i] = i\<close> and empty payload handles, the index space modulo \<open>M = 2 * C\<close>, both
  cursors at the start of the index space (all slots free, none unread) and the
  visibility flag not yet latched. The registry takes no part in the queue's state.
\<close>

definition new_queue :: "nat \<Rightarrow> 'a consumer_queue" where
  "new_queue C =
     \<lparr>buffer = map (\<lambda>i. \<lparr>seq_state = i, item_value = None\<rparr>) [0..<C],
      size_q = C, wrap_at = 2 * C, done_sync = False, write_idx = 0, read_idx = 0\<rparr>"

text \<open>
  Modelled from the spec: \<open>read_available()\<close> is declared in the header and defined
  elsewhere. The spec gives \<open>(write cursor - read cursor) mod M\<close>.
\<close>

definition read_available :: "'a consumer_queue \<Rightarrow> nat" where
  "read_available q = (write_idx q + wrap_at q - read_idx q) mod wrap_at q"

text \<open>
  Modelled from the spec: \<open>empty()\<close> is declared in the header and defined elsewhere. The
  spec gives the boolean form of the comparison of \<open>read_available\<close>.
\<close>

definition empty_q :: "'a consumer_queue \<Rightarrow> bool" where
  "empty_q q = (write_idx q = read_idx q)"

text \<open>
  Modelled from the spec: \<open>flush()\<close> is declared in the header (with result type
  \<open>uint32_t\<close>) and defined elsewhere. The spec gives: repeatedly force-claim and discard
  values until empty, return the count discarded. The loop below is
  \<open>while (try_pop()) n++; return n;\<close>, with the count as a natural number.
\<close>

partial_function (option) flush_loop ::
  "'a consumer_queue \<Rightarrow> nat \<Rightarrow> (fault + nat \<times> 'a consumer_queue) option" where
  "flush_loop q n =
     (case try_pop move_or_drop0 q () of
        None \<Rightarrow> None
      | Some (Inl e) \<Rightarrow> Some (Inl e)
      | Some (Inr (claimed, u, q1)) \<Rightarrow>
          if claimed then flush_loop q1 (n + 1) else Some (Inr (n, q1)))"

declare flush_loop.simps [code]

definition flush :: "'a consumer_queue \<Rightarrow> (fault + nat \<times> 'a consumer_queue) option" where
  "flush q = flush_loop q 0"

subsection \<open>Sequences of operations\<close>

datatype 'a operation = Push "'a sample_p" | Pop real nat | Flush

datatype 'a outcome = Pushed | Popped "'a sample_p" | Flushed nat

definition exec_op ::
  "'a consumer_queue \<Rightarrow> 'a operation \<Rightarrow>
     (fault + 'a outcome \<times> 'a consumer_queue \<times> event list) option" where
  "exec_op q operation =
     (case operation of
        Push sample \<Rightarrow>
          (case push_sample q sample of
             None \<Rightarrow> None
           | Some (Inl e) \<Rightarrow> Some (Inl e)
           | Some (Inr (q1, evs)) \<Rightarrow> Some (Inr (Pushed, q1, evs)))
      | Pop timeout wakeups \<Rightarrow>
          (case pop_sample q timeout wakeups of
             None \<Rightarrow> None
           | Some (Inl e) \<Rightarrow> Some (Inl e)
           | Some (Inr (r, q1, evs)) \<Rightarrow> Some (Inr (Popped r, q1, evs)))
      | Flush \<Rightarrow>
          (case flush q of
             None \<Rightarrow> None
           | Some (Inl e) \<Rightarrow> Some (Inl e)
           | Some (Inr (n, q1)) \<Rightarrow> Some (Inr (Flushed n, q1, []))))"

fun run ::
  "'a consumer_queue \<Rightarrow> 'a operation list \<Rightarrow>
     (fault + 'a outcome list \<times> 'a consumer_queue \<times> event list) option" where
  "run q [] = Some (Inr ([], q, []))"
| "run q (operation # ops) =
     (case exec_op q operation of
        None \<Rightarrow> None
      | Some (Inl e) \<Rightarrow> Some (Inl e)
      | Some (Inr (out, q1, evs1)) \<Rightarrow>
          (case run q1 ops of
             None \<Rightarrow> None
           | Some (Inl e) \<Rightarrow> Some (Inl e)
           | Some (Inr (outs, q2, evs2)) \<Rightarrow> Some (Inr (out # outs, q2, evs1 @ evs2))))"

text \<open>
  A state is reachable when a sequence of \<open>push_sample\<close>, \<open>pop_sample\<close> and \<open>flush\<close> calls
  leads to it from a queue constructed with a positive capacity.
\<close>

definition reachable :: "'a consumer_queue \<Rightarrow> bool" where
  "reachable q \<longleftrightarrow>
     (\<exists>C ops outs evs. 0 < C \<and> run (new_queue C) ops = Some (Inr (outs, q, evs)))"

subsection \<open>Reading the ring\<close>

text \<open>
  The slot \<open>k\<close> places after the read cursor holds an unread value when its readiness
  marker is the one \<open>try_pop\<close> expects once the read cursor has reached it: the index
  after \<open>read_idx_ + k\<close>.
\<close>

definition holds_unread :: "'a consumer_queue \<Rightarrow> nat \<Rightarrow> bool" where
  "holds_unread q k \<longleftrightarrow>
     seq_state (buffer q ! ((read_idx q + k) mod size_q q)) = (read_idx q + k + 1) mod wrap_at q"

definition unread_slots :: "'a consumer_queue \<Rightarrow> nat" where
  "unread_slots q = length (filter (holds_unread q) [0..<size_q q])"

text \<open>The payload handles of the unread samples, oldest first.\<close>

definition contents :: "'a consumer_queue \<Rightarrow> 'a sample_p list" where
  "contents q =
     map (\<lambda>k. item_value (buffer q ! ((read_idx q + k) mod size_q q))) [0..<read_available q]"

text \<open>
  The invariant of the ring: the array has \<open>size_\<close> items, both cursors are in the index
  space, at most \<open>size_\<close> samples are unread, the first \<open>read_available\<close> slots after the
  read cursor are marked filled and the others are marked free for the write index that
  will reach them.
\<close>

definition queue_inv :: "'a consumer_queue \<Rightarrow> bool" where
  "queue_inv q \<longleftrightarrow>
     0 < size_q q \<and> length (buffer q) = size_q q \<and> wrap_at q = 2 * size_q q \<and>
     read_idx q < wrap_at q \<and> write_idx q < wrap_at q \<and>
     read_available q \<le> size_q q \<and>
     (\<forall>k<size_q q. seq_state (buffer q ! ((read_idx q + k) mod size_q q)) =
        (if k < read_available q then (read_idx q + k + 1) mod wrap_at q
         else (read_idx q + k) mod wrap_at q))"

subsection \<open>States after the calls\<close>

text \<open>
  The queue after a successful \<open>try_push\<close> of \<open>x\<close>, after a successful \<open>try_pop\<close> that
  leaves the handle \<open>src\<close> in the slot, after the one-time fence of \<open>push_sample\<close>, and
  after the forced \<open>try_pop()\<close> of \<open>push_sample\<close>, written out on a queue that satisfies
  the invariant. They are used to state what the calls return.
\<close>

definition pushed :: "'a consumer_queue \<Rightarrow> 'a sample_p \<Rightarrow> 'a consumer_queue" where
  "pushed q x =
     q\<lparr>write_idx := (write_idx q + 1) mod wrap_at q,
       buffer := (buffer q)[write_idx q mod size_q q :=
         \<lparr>seq_state = (write_idx q + 1) mod wrap_at q, item_value = x\<rparr>]\<rparr>"

definition popped :: "'a consumer_queue \<Rightarrow> 'a sample_p \<Rightarrow> 'a consumer_queue" where
  "popped q src =
     q\<lparr>read_idx := (read_idx q + 1) mod wrap_at q,
       buffer := (buffer q)[read_idx q mod size_q q :=
         \<lparr>seq_state = (read_idx q + size_q q) mod wrap_at q, item_value = src\<rparr>]\<rparr>"

definition fenced :: "'a consumer_queue \<Rightarrow> 'a consumer_queue" where
  "fenced q = (if \<not> done_sync q then q\<lparr>done_sync := True\<rparr> else q)"

definition evicted :: "'a consumer_queue \<Rightarrow> 'a consumer_queue" where
  "evicted q = popped (fenced q) (item_value (buffer q ! (read_idx q mod size_q q)))"

subsection \<open>The list of unread samples under the operations\<close>

text \<open>
  What the calls do to the list of unread handles of a queue with \<open>C\<close> slots, as the
  code is shown to behave below: a push appends when there is room and otherwise
  removes the oldest handle first; with a single slot a push onto the full queue leaves
  no unread handle.
\<close>

definition fifo_push :: "nat \<Rightarrow> 'a sample_p list \<Rightarrow> 'a sample_p \<Rightarrow> 'a sample_p list" where
  "fifo_push C cs x =
     (if length cs < C then cs @ [x] else if C = 1 then [] else tl cs @ [x])"

fun fifo_exec ::
  "nat \<Rightarrow> 'a sample_p list \<Rightarrow> 'a operation \<Rightarrow> 'a outcome \<times> 'a sample_p list" where
  "fifo_exec C cs (Push x) = (Pushed, fifo_push C cs x)"
| "fifo_exec C cs (Pop timeout wakeups) =
     (Popped (case cs of [] \<Rightarrow> None | c # rest \<Rightarrow> c), tl cs)"
| "fifo_exec C cs Flush = (Flushed (length cs), [])"

fun fifo_run ::
  "nat \<Rightarrow> 'a sample_p list \<Rightarrow> 'a operation list \<Rightarrow> 'a outcome list \<times> 'a sample_p list" where
  "fifo_run C cs [] = ([], cs)"
| "fifo_run C cs (operation # ops) =
     (let (out, cs1) = fifo_exec C cs operation;
          (outs, cs2) = fifo_run C cs1 ops
      in (out # outs, cs2))"

text \<open>
  The events \<open>evs\<close> of a run from \<open>q\<close> to \<open>q'\<close> hold the fence at most once, not at all
  when the flag was set before, and the flag is set afterwards when it was set before or
  the fence was made.
\<close>

definition fence_once :: "'a consumer_queue \<Rightarrow> event list \<Rightarrow> 'a consumer_queue \<Rightarrow> bool" where
  "fence_once q evs q' \<longleftrightarrow>
     count_list evs Acquire_fence \<le> (if done_sync q then 0 else 1) \<and>
     (done_sync q \<or> 0 < count_list evs Acquire_fence \<longrightarrow> done_sync q')"

text \<open>
  The samples behind a list of handles (null handles carry none), the samples pushed by
  a sequence of operations and the samples returned by its pops.
\<close>

fun samples :: "'a sample_p list \<Rightarrow> 'a list" where
  "samples [] = []"
| "samples (None # hs) = samples hs"
| "samples (Some s # hs) = s # samples hs"

fun pushed_handles :: "'a operation list \<Rightarrow> 'a sample_p list" where
  "pushed_handles [] = []"
| "pushed_handles (Push x # ops) = x # pushed_handles ops"
| "pushed_handles (Pop timeout wakeups # ops) = pushed_handles ops"
| "pushed_handles (Flush # ops) = pushed_handles ops"

fun popped_handles :: "'a outcome list \<Rightarrow> 'a sample_p list" where
  "popped_handles [] = []"
| "popped_handles (Popped r # outs) = r # popped_handles outs"
| "popped_handles (Pushed # outs) = popped_handles outs"
| "popped_handles (Flushed n # outs) = popped_handles outs"

subsection \<open>The drop-oldest queue of the spec\<close>

text \<open>
  The queue as the spec words it, on the list of resident handles (oldest first) of a
  queue of capacity \<open>C\<close>, with a log of the handles that leave the queue: a push stores
  the handle, and when \<open>C\<close> handles are resident it first discards exactly one, the oldest;
  a pop returns the oldest resident handle, and the empty handle when none is resident; a
  flush discards all resident handles and returns their number. \<open>Returned\<close> marks a handle
  that a pop returned, \<open>Discarded\<close> one that an eviction or a flush discarded.
\<close>

datatype 'a departure = Returned "'a sample_p" | Discarded "'a sample_p"

fun spec_exec ::
  "nat \<Rightarrow> 'a sample_p list \<Rightarrow> 'a operation \<Rightarrow>
     'a outcome \<times> 'a sample_p list \<times> 'a departure list" where
  "spec_exec C cs (Push x) =
     (if length cs < C then (Pushed, cs @ [x], [])
      else (Pushed, tl cs @ [x], map Discarded (take 1 cs)))"
| "spec_exec C cs (Pop timeout wakeups) =
     (case cs of [] \<Rightarrow> (Popped None, [], []) | c # rest \<Rightarrow> (Popped c, rest, [Returned c]))"
| "spec_exec C cs Flush = (Flushed (length cs), [], map Discarded cs)"

fun spec_run ::
  "nat \<Rightarrow> 'a sample_p list \<Rightarrow> 'a operation list \<Rightarrow>
     'a outcome list \<times> 'a sample_p list \<times> 'a departure list" where
  "spec_run C cs [] = ([], cs, [])"
| "spec_run C cs (operation # ops) =
     (let (out, cs1, ds1) = spec_exec C cs operation;
          (outs, cs2, ds2) = spec_run C cs1 ops
      in (out # outs, cs2, ds1 @ ds2))"

text \<open>The handles of a log of departures, and those among them that a pop returned.\<close>

fun departed :: "'a departure list \<Rightarrow> 'a sample_p list" where
  "departed [] = []"
| "departed (Returned x # ds) = x # departed ds"
| "departed (Discarded x # ds) = x # departed ds"

fun returned :: "'a departure list \<Rightarrow> 'a sample_p list" where
  "returned [] = []"
| "returned (Returned x # ds) = x # returned ds"
| "returned (Discarded x # ds) = returned ds"

section \<open>Properties of the embedding\<close>

subsection \<open>Index arithmetic\<close>

lemma add_wrap_mod:
  "x < wrap_at q \<Longrightarrow> d \<le> wrap_at q \<Longrightarrow> add_wrap q x d = (x + d) mod wrap_at q"
  by (simp add: add_wrap_def Let_def le_mod_geq)

lemma write_idx_eq:
  "r < M \<Longrightarrow> w < M \<Longrightarrow> (r + (w + M - r) mod M) mod M = (w::nat)"
  by (cases "r \<le> w") (simp_all add: le_mod_geq)

lemma avail_eq:
  "r < M \<Longrightarrow> n < M \<Longrightarrow> ((r + n) mod M + M - r) mod M = (n::nat)"
  by (cases "r + n < M") (simp_all add: le_mod_geq)

lemma mod_neq:
  assumes "a < b" "b - a < M"
  shows "a mod M \<noteq> b mod (M::nat)"
proof
  assume "a mod M = b mod M"
  then have "b mod M = a mod M" by simp
  moreover have "a \<le> b" using assms(1) by simp
  ultimately have "M dvd b - a"
    by (simp add: mod_eq_dvd_iff_nat)
  then have "M \<le> b - a" using assms(1) by (simp add: dvd_imp_le)
  with assms(2) show False by simp
qed

lemma slot_inj:
  assumes "k < C" "j < C" "(r + k) mod C = (r + j) mod C"
  shows "k = (j::nat)"
proof (rule ccontr)
  assume "k \<noteq> j"
  then consider "k < j" | "j < k" by linarith
  then show False
  proof cases
    case 1
    with assms(2) have "(r + k) mod C \<noteq> (r + j) mod C" by (intro mod_neq) simp_all
    with assms(3) show False by simp
  next
    case 2
    with assms(1) have "(r + j) mod C \<noteq> (r + k) mod C" by (intro mod_neq) simp_all
    with assms(3) show False by simp
  qed
qed

lemma mod2: "(x mod (2 * C)) mod C = x mod (C::nat)"
  by (simp add: mod_mod_cancel)

subsection \<open>The invariant, read\<close>

lemma inv_write_idx:
  "queue_inv q \<Longrightarrow> write_idx q = (read_idx q + read_available q) mod wrap_at q"
  by (simp add: queue_inv_def read_available_def write_idx_eq)

lemma inv_write_slot:
  assumes "queue_inv q"
  shows "write_idx q mod size_q q = (read_idx q + read_available q) mod size_q q"
proof -
  have "wrap_at q = 2 * size_q q" using assms by (simp add: queue_inv_def)
  then have "write_idx q = (read_idx q + read_available q) mod (2 * size_q q)"
    using inv_write_idx[OF assms] by simp
  then have "write_idx q mod size_q q =
      (read_idx q + read_available q) mod (2 * size_q q) mod size_q q"
    by simp
  then show ?thesis by (simp only: mod2)
qed

lemma inv_item_index:
  "queue_inv q \<Longrightarrow> item_index q idx = Inr (idx mod size_q q)"
  by (simp add: queue_inv_def item_index_def)

lemma inv_marker:
  "queue_inv q \<Longrightarrow> k < size_q q \<Longrightarrow>
   seq_state (buffer q ! ((read_idx q + k) mod size_q q)) =
     (if k < read_available q then (read_idx q + k + 1) mod wrap_at q
      else (read_idx q + k) mod wrap_at q)"
  by (simp add: queue_inv_def)

subsection \<open>\<open>try_push\<close> on a queue that satisfies the invariant\<close>

text \<open>
  \<open>try_push\<close> fails and changes nothing when the marker of its slot is not the write
  index, and otherwise leaves the state \<open>pushed\<close>. With room in the ring the marker is the
  write index, and the push keeps the invariant and appends to the unread handles. On a
  full ring of two or more slots the marker is not the write index.
\<close>

lemma item_both_upd:
  "(it::'a item_t)\<lparr>item_value := x, seq_state := s\<rparr> = \<lparr>seq_state = s, item_value = x\<rparr>"
  by (cases it) simp

lemma try_push_full:
  assumes "queue_inv q" "write_idx q \<noteq> seq_state (buffer q ! (write_idx q mod size_q q))"
  shows "try_push q x = Inr (False, q)"
  unfolding try_push_def Let_def inv_item_index[OF assms(1)]
  using assms(2) by simp

lemma try_push_free:
  assumes "queue_inv q" "seq_state (buffer q ! (write_idx q mod size_q q)) = write_idx q"
  shows "try_push q x = Inr (True, pushed q x)"
proof -
  have nxt: "add_wrap q (write_idx q) 1 = (write_idx q + 1) mod wrap_at q"
    using assms(1) by (intro add_wrap_mod) (simp_all add: queue_inv_def)
  have i: "write_idx q mod size_q q < length (buffer q)"
    using assms(1) by (simp add: queue_inv_def)
  show ?thesis
    unfolding try_push_def Let_def inv_item_index[OF assms(1)] nxt pushed_def copy_or_move_def
    using i assms(2) by (simp add: item_both_upd)
qed

lemma marker_at_write:
  assumes "queue_inv q"
  shows "seq_state (buffer q ! (write_idx q mod size_q q)) =
    (if read_available q < size_q q then write_idx q
     else (read_idx q + 1) mod wrap_at q)"
proof (cases "read_available q < size_q q")
  case True
  then show ?thesis
    using inv_marker[OF assms True] inv_write_slot[OF assms] inv_write_idx[OF assms] by simp
next
  case False
  then have n: "read_available q = size_q q" using assms by (simp add: queue_inv_def)
  have "0 < size_q q" using assms by (simp add: queue_inv_def)
  then show ?thesis
    using inv_marker[OF assms, of 0] inv_write_slot[OF assms] n by simp
qed


lemma pushed_simps:
  "write_idx (pushed q x) = (write_idx q + 1) mod wrap_at q"
  "read_idx (pushed q x) = read_idx q"
  "size_q (pushed q x) = size_q q"
  "wrap_at (pushed q x) = wrap_at q"
  "done_sync (pushed q x) = done_sync q"
  "buffer (pushed q x) = (buffer q)[write_idx q mod size_q q :=
         \<lparr>seq_state = (write_idx q + 1) mod wrap_at q, item_value = x\<rparr>]"
  by (simp_all add: pushed_def)

lemma pushed_available:
  assumes "queue_inv q" "read_available q < size_q q"
  shows "read_available (pushed q x) = Suc (read_available q)"
proof -
  let ?r = "read_idx q" and ?n = "read_available q" and ?M = "wrap_at q"
  have M: "?M = 2 * size_q q" and r: "?r < ?M" using assms(1) by (simp_all add: queue_inv_def)
  have "(write_idx q + 1) mod ?M = (?r + Suc ?n) mod ?M"
    using inv_write_idx[OF assms(1)] by (simp add: mod_Suc_eq)
  moreover have "Suc ?n < ?M" using assms(2) M by simp
  ultimately show ?thesis
    using avail_eq[OF r, of "Suc ?n"] by (simp add: read_available_def pushed_simps)
qed

lemma pushed_slot:
  assumes "queue_inv q" "read_available q < size_q q" "k < size_q q"
  shows "buffer (pushed q x) ! ((read_idx q + k) mod size_q q) =
    (if k = read_available q
     then \<lparr>seq_state = (write_idx q + 1) mod wrap_at q, item_value = x\<rparr>
     else buffer q ! ((read_idx q + k) mod size_q q))"
proof -
  have len: "length (buffer q) = size_q q" and C: "0 < size_q q"
    using assms(1) by (simp_all add: queue_inv_def)
  have slot: "write_idx q mod size_q q = (read_idx q + read_available q) mod size_q q"
    by (rule inv_write_slot[OF assms(1)])
  show ?thesis
  proof (cases "k = read_available q")
    case True
    then show ?thesis using len C slot by (simp add: pushed_simps)
  next
    case False
    then have "(read_idx q + read_available q) mod size_q q \<noteq> (read_idx q + k) mod size_q q"
      using slot_inj[OF assms(2,3)] by metis
    then show ?thesis using False slot by (simp add: pushed_simps)
  qed
qed

lemma pushed_inv:
  assumes "queue_inv q" "read_available q < size_q q"
  shows "queue_inv (pushed q x)"
proof -
  have q: "0 < size_q q" "length (buffer q) = size_q q" "wrap_at q = 2 * size_q q"
    "read_idx q < wrap_at q"
    using assms(1) by (simp_all add: queue_inv_def)
  have n: "read_available (pushed q x) = Suc (read_available q)"
    by (rule pushed_available[OF assms])
  have w: "(write_idx q + 1) mod wrap_at q = (read_idx q + read_available q + 1) mod wrap_at q"
    using inv_write_idx[OF assms(1)] by (simp add: mod_Suc_eq)
  have markers: "seq_state (buffer (pushed q x) ! ((read_idx q + k) mod size_q q)) =
        (if k < Suc (read_available q) then (read_idx q + k + 1) mod wrap_at q
         else (read_idx q + k) mod wrap_at q)" if "k < size_q q" for k
    using pushed_slot[OF assms that, of x] inv_marker[OF assms(1) that] w
    by (cases "k = read_available q") auto
  show ?thesis
    unfolding queue_inv_def
    using q assms(2) markers by (simp add: pushed_simps n)
qed

lemma pushed_contents:
  assumes "queue_inv q" "read_available q < size_q q"
  shows "contents (pushed q x) = contents q @ [x]"
proof -
  have "item_value (buffer (pushed q x) ! ((read_idx q + k) mod size_q q)) =
        item_value (buffer q ! ((read_idx q + k) mod size_q q))" if "k < read_available q" for k
    using pushed_slot[OF assms, of k x] that assms(2) by simp
  moreover have "item_value (buffer (pushed q x) !
        ((read_idx q + read_available q) mod size_q q)) = x"
    using pushed_slot[OF assms assms(2), of x] by simp
  ultimately show ?thesis
    by (simp add: contents_def pushed_available[OF assms] pushed_simps(2,3))
qed


lemma full_marker_neq:
  "2 \<le> C \<Longrightarrow> (r + 1) mod (2 * C) \<noteq> (r + C) mod (2 * C :: nat)"
  using mod_neq[of "r + 1" "r + C" "2 * C"] by simp

lemma succ_mod_neq: "2 \<le> M \<Longrightarrow> x < M \<Longrightarrow> (x + 1) mod M \<noteq> (x::nat)"
  using mod_neq[of x "x + 1" M] by simp

lemma try_push_not_full:
  assumes "queue_inv q" "read_available q < size_q q"
  shows "try_push q x = Inr (True, pushed q x)"
  using marker_at_write[OF assms(1)] assms(2) by (intro try_push_free[OF assms(1)]) simp

lemma try_push_when_full:
  assumes "queue_inv q" "read_available q = size_q q" "2 \<le> size_q q"
  shows "try_push q x = Inr (False, q)"
proof -
  have M: "wrap_at q = 2 * size_q q" using assms(1) by (simp add: queue_inv_def)
  have "seq_state (buffer q ! (write_idx q mod size_q q)) = (read_idx q + 1) mod wrap_at q"
    using marker_at_write[OF assms(1)] assms(2) by simp
  moreover have "write_idx q = (read_idx q + size_q q) mod wrap_at q"
    using inv_write_idx[OF assms(1)] assms(2) by simp
  ultimately have "write_idx q \<noteq> seq_state (buffer q ! (write_idx q mod size_q q))"
    using full_marker_neq[OF assms(3), of "read_idx q"] M by simp
  then show ?thesis by (rule try_push_full[OF assms(1)])
qed

subsection \<open>\<open>try_pop\<close> on a queue that satisfies the invariant\<close>

text \<open>
  The loop of \<open>try_pop\<close> ends in its first iteration: it returns \<open>false\<close> when nothing is
  unread and claims the slot at the read cursor otherwise. The state \<open>popped\<close> keeps the
  invariant and holds the unread handles but the first.
\<close>

lemma marker_at_read:
  assumes "queue_inv q"
  shows "seq_state (buffer q ! (read_idx q mod size_q q)) =
    (if 0 < read_available q then (read_idx q + 1) mod wrap_at q else read_idx q)"
proof -
  have "0 < size_q q" "read_idx q < wrap_at q" using assms by (simp_all add: queue_inv_def)
  then show ?thesis using inv_marker[OF assms, of 0] by simp
qed

lemma try_pop_loop_empty:
  assumes "queue_inv q" "read_available q = 0"
  shows "try_pop_loop q (read_idx q) = Some (Inr (None, q))"
proof -
  have r: "read_idx q < wrap_at q" and M: "2 \<le> wrap_at q"
    using assms(1) by (simp_all add: queue_inv_def)
  have nxt: "add_wrap q (read_idx q) 1 = (read_idx q + 1) mod wrap_at q"
    using r by (intro add_wrap_mod) simp_all
  have m: "seq_state (buffer q ! (read_idx q mod size_q q)) = read_idx q"
    using marker_at_read[OF assms(1)] assms(2) by simp
  show ?thesis
    using succ_mod_neq[OF M r] nxt m
    by (subst try_pop_loop.simps) (simp add: inv_item_index[OF assms(1)] Let_def)
qed

lemma try_pop_loop_claim:
  assumes "queue_inv q" "0 < read_available q"
  shows "try_pop_loop q (read_idx q) =
    Some (Inr (Some (read_idx q, read_idx q mod size_q q),
               q\<lparr>read_idx := (read_idx q + 1) mod wrap_at q\<rparr>))"
proof -
  have r: "read_idx q < wrap_at q"
    using assms(1) by (simp_all add: queue_inv_def)
  have nxt: "add_wrap q (read_idx q) 1 = (read_idx q + 1) mod wrap_at q"
    using r by (intro add_wrap_mod) simp_all
  have m: "seq_state (buffer q ! (read_idx q mod size_q q)) = (read_idx q + 1) mod wrap_at q"
    using marker_at_read[OF assms(1)] assms(2) by simp
  show ?thesis
    using nxt m
    by (subst try_pop_loop.simps) (simp add: inv_item_index[OF assms(1)] Let_def)
qed

lemma try_pop_empty:
  assumes "queue_inv q" "read_available q = 0"
  shows "try_pop mv q res = Some (Inr (False, res, q))"
  by (simp add: try_pop_def try_pop_loop_empty[OF assms])

lemma try_pop_claim:
  assumes "queue_inv q" "0 < read_available q"
  shows "try_pop mv q res =
    Some (Inr (True, snd (mv (item_value (buffer q ! (read_idx q mod size_q q))) res),
      popped q (fst (mv (item_value (buffer q ! (read_idx q mod size_q q))) res))))"
proof -
  have q: "read_idx q < wrap_at q" "size_q q \<le> wrap_at q" "0 < size_q q"
    "length (buffer q) = size_q q"
    using assms(1) by (simp_all add: queue_inv_def)
  have aw: "add_wrap q' (read_idx q) (size_q q) = (read_idx q + size_q q) mod wrap_at q"
    if "wrap_at q' = wrap_at q" for q' :: "'a consumer_queue"
    using add_wrap_mod[of "read_idx q" q' "size_q q"] q that by simp
  show ?thesis
    using q(3,4)
    by (simp add: try_pop_def try_pop_loop_claim[OF assms] Let_def split_beta aw popped_def
        item_both_upd)
qed


lemma popped_simps:
  "read_idx (popped q s) = (read_idx q + 1) mod wrap_at q"
  "write_idx (popped q s) = write_idx q"
  "size_q (popped q s) = size_q q"
  "wrap_at (popped q s) = wrap_at q"
  "done_sync (popped q s) = done_sync q"
  "buffer (popped q s) = (buffer q)[read_idx q mod size_q q :=
         \<lparr>seq_state = (read_idx q + size_q q) mod wrap_at q, item_value = s\<rparr>]"
  by (simp_all add: popped_def)

lemma mod2_add: "(a mod (2 * C) + k) mod C = (a + k) mod (C::nat)"
  by (metis mod2 mod_add_left_eq)

lemma popped_available:
  assumes "queue_inv q" "0 < read_available q"
  shows "read_available (popped q s) = read_available q - 1"
proof -
  let ?r = "read_idx q" and ?n = "read_available q" and ?M = "wrap_at q"
  have M: "?M = 2 * size_q q" "0 < size_q q" "?n \<le> size_q q"
    using assms(1) by (simp_all add: queue_inv_def)
  have r': "(?r + 1) mod ?M < ?M" using M by simp
  have "?r + ?n = (?r + 1) + (?n - 1)" using assms(2) by simp
  then have "write_idx q = ((?r + 1) mod ?M + (?n - 1)) mod ?M"
    using inv_write_idx[OF assms(1)] by (simp only: mod_add_left_eq)
  moreover have "?n - 1 < ?M" using M by simp
  ultimately have "(write_idx q + ?M - (?r + 1) mod ?M) mod ?M = ?n - 1"
    using avail_eq[OF r', of "?n - 1"] by simp
  then show ?thesis by (simp add: read_available_def popped_simps)
qed

lemma popped_slot:
  assumes "queue_inv q" "k < size_q q"
  shows "buffer (popped q s) ! ((read_idx (popped q s) + k) mod size_q q) =
    (if Suc k = size_q q
     then \<lparr>seq_state = (read_idx q + size_q q) mod wrap_at q, item_value = s\<rparr>
     else buffer q ! ((read_idx q + Suc k) mod size_q q))"
proof -
  have q: "length (buffer q) = size_q q" "0 < size_q q" "wrap_at q = 2 * size_q q"
    using assms(1) by (simp_all add: queue_inv_def)
  have idx: "(read_idx (popped q s) + k) mod size_q q = (read_idx q + Suc k) mod size_q q"
    using q(3) by (simp add: popped_simps mod2_add)
  show ?thesis
  proof (cases "Suc k = size_q q")
    case True
    then have "(read_idx q + Suc k) mod size_q q = read_idx q mod size_q q" by simp
    then show ?thesis using True q idx by (simp add: popped_simps)
  next
    case False
    then have "Suc k < size_q q" using assms(2) by simp
    then have "(read_idx q + 0) mod size_q q \<noteq> (read_idx q + Suc k) mod size_q q"
      using slot_inj[of 0 "size_q q" "Suc k" "read_idx q"] q(2) by auto
    then show ?thesis using False idx by (simp add: popped_simps)
  qed
qed

lemma popped_inv:
  assumes "queue_inv q" "0 < read_available q"
  shows "queue_inv (popped q s)"
proof -
  let ?r = "read_idx q" and ?n = "read_available q" and ?M = "wrap_at q" and ?C = "size_q q"
  have q: "0 < ?C" "length (buffer q) = ?C" "?M = 2 * ?C" "write_idx q < ?M" "?n \<le> ?C"
    using assms(1) by (simp_all add: queue_inv_def)
  have n: "read_available (popped q s) = ?n - 1"
    by (rule popped_available[OF assms])
  have shift: "((?r + 1) mod ?M + j) mod ?M = (?r + Suc j) mod ?M" for j
    by (simp add: mod_add_left_eq)
  have markers: "seq_state (buffer (popped q s) ! ((read_idx (popped q s) + k) mod ?C)) =
        (if k < ?n - 1 then (read_idx (popped q s) + k + 1) mod ?M
         else (read_idx (popped q s) + k) mod ?M)" if "k < ?C" for k
  proof (cases "Suc k = ?C")
    case True
    then have "\<not> k < ?n - 1" using q(5) by simp
    moreover have "(read_idx (popped q s) + k) mod ?M = (?r + ?C) mod ?M"
      using shift[of k] True by (simp add: popped_simps)
    ultimately show ?thesis using popped_slot[OF assms(1) that, of s] True by simp
  next
    case False
    then have k: "Suc k < ?C" using that by simp
    have "(read_idx (popped q s) + k + 1) mod ?M = (?r + Suc k + 1) mod ?M"
      using shift[of "Suc k"] by (simp add: popped_simps)
    moreover have "(read_idx (popped q s) + k) mod ?M = (?r + Suc k) mod ?M"
      using shift[of k] by (simp add: popped_simps)
    moreover have "k < ?n - 1 \<longleftrightarrow> Suc k < ?n" by auto
    ultimately show ?thesis
      using popped_slot[OF assms(1) that, of s] inv_marker[OF assms(1) k] False by simp
  qed
  show ?thesis
    unfolding queue_inv_def
    using q markers by (simp add: popped_simps n)
qed

lemma contents_nonempty:
  assumes "queue_inv q" "0 < read_available q"
  shows "contents q =
    item_value (buffer q ! (read_idx q mod size_q q)) #
    map (\<lambda>k. item_value (buffer q ! ((read_idx q + Suc k) mod size_q q)))
      [0..<read_available q - 1]"
proof -
  have "[0..<read_available q] = 0 # map Suc [0..<read_available q - 1]"
    using assms(2) by (metis Suc_pred' map_Suc_upt upt_conv_Cons)
  then show ?thesis by (simp add: contents_def comp_def)
qed

lemma popped_contents:
  assumes "queue_inv q" "0 < read_available q"
  shows "contents (popped q s) = tl (contents q)"
proof -
  have C: "read_available q \<le> size_q q" using assms(1) by (simp add: queue_inv_def)
  have "item_value (buffer (popped q s) ! ((read_idx (popped q s) + k) mod size_q q)) =
        item_value (buffer q ! ((read_idx q + Suc k) mod size_q q))"
    if "k < read_available q - 1" for k
  proof -
    have "Suc k < size_q q" using that C by simp
    then show ?thesis using popped_slot[OF assms(1), of k s] by simp
  qed
  then show ?thesis
    by (simp add: contents_nonempty[OF assms] contents_def[of "popped q s"]
        popped_available[OF assms] popped_simps(3))
qed


subsection \<open>\<open>push_sample\<close>\<close>

text \<open>
  A ring with a single slot never reports itself full. On a full ring of two or more
  slots the loop of \<open>push_sample\<close> makes the fence if the flag is not set, claims the
  oldest slot and pushes into the slot that became free.
\<close>

lemma fenced_simps:
  "read_idx (fenced q) = read_idx q"
  "write_idx (fenced q) = write_idx q"
  "size_q (fenced q) = size_q q"
  "wrap_at (fenced q) = wrap_at q"
  "buffer (fenced q) = buffer q"
  "done_sync (fenced q)"
  "read_available (fenced q) = read_available q"
  "contents (fenced q) = contents q"
  "queue_inv (fenced q) = queue_inv q"
  by (simp_all add: fenced_def read_available_def contents_def queue_inv_def)

lemma pushed_single_full:
  assumes "queue_inv q" "size_q q = 1" "read_available q = 1"
  shows "try_push q x = Inr (True, pushed q x)"
    and "queue_inv (pushed q x)"
    and "read_available (pushed q x) = 0"
proof -
  have q: "wrap_at q = 2" "read_idx q < 2" "length (buffer q) = 1"
    using assms(1,2) by (simp_all add: queue_inv_def)
  have w: "write_idx q = (read_idx q + 1) mod 2"
    using inv_write_idx[OF assms(1)] assms(3) q by simp
  have m: "seq_state (buffer q ! 0) = (read_idx q + 1) mod 2"
    using marker_at_write[OF assms(1)] assms(2,3) q by simp
  show "try_push q x = Inr (True, pushed q x)"
    using m w assms(2) by (intro try_push_free[OF assms(1)]) simp
  have w': "(write_idx q + 1) mod 2 = read_idx q"
    using w q(2) by (simp add: mod_Suc)
  show n: "read_available (pushed q x) = 0"
    using w' q by (simp add: read_available_def pushed_simps)
  show "queue_inv (pushed q x)"
    unfolding queue_inv_def
    using q assms(2) w' by (simp add: n pushed_simps)
qed

lemma push_sample_loop_direct:
  assumes "try_push q x = Inr (True, q')"
  shows "push_sample_loop q x evs = Some (Inr (q', evs))"
  by (subst push_sample_loop.simps) (simp add: assms)

lemma move_or_drop0_simps:
  "fst (move_or_drop0 v u) = v" "snd (move_or_drop0 v u) = ()"
  by (simp_all add: move_or_drop0_def)

lemma move_or_drop1_simps:
  "fst (move_or_drop1 v r) = None" "snd (move_or_drop1 v r) = v"
  by (simp_all add: move_or_drop1_def)

lemma forced_try_pop:
  assumes "queue_inv q" "0 < read_available q"
  shows "try_pop move_or_drop0 (fenced q) () = Some (Inr (True, (), evicted q))"
  using try_pop_claim[of "fenced q" move_or_drop0 "()"] assms
  by (simp add: fenced_simps evicted_def move_or_drop0_simps)

lemma evicted_facts:
  assumes "queue_inv q" "0 < read_available q"
  shows "queue_inv (evicted q)"
    and "read_available (evicted q) = read_available q - 1"
    and "contents (evicted q) = tl (contents q)"
    and "size_q (evicted q) = size_q q"
    and "done_sync (evicted q)"
  using assms popped_inv[of "fenced q"] popped_available[of "fenced q"]
    popped_contents[of "fenced q"]
  by (simp_all add: evicted_def fenced_simps popped_simps)

lemma push_sample_loop_evict:
  assumes "queue_inv q" "read_available q = size_q q" "2 \<le> size_q q"
  shows "push_sample_loop q x evs =
    Some (Inr (pushed (evicted q) x, evs @ (if done_sync q then [] else [Acquire_fence])))"
proof -
  have n: "0 < read_available q" using assms(2,3) by simp
  have free: "read_available (evicted q) < size_q (evicted q)"
    using evicted_facts(2,4)[OF assms(1) n] n assms(2) by simp
  have again: "push_sample_loop (evicted q) x evs' = Some (Inr (pushed (evicted q) x, evs'))"
    for evs'
    by (rule push_sample_loop_direct)
      (rule try_push_not_full[OF evicted_facts(1)[OF assms(1) n] free])
  have pop: "done_sync q \<Longrightarrow> try_pop move_or_drop0 q () = Some (Inr (True, (), evicted q))"
    "\<not> done_sync q \<Longrightarrow>
      try_pop move_or_drop0 (q\<lparr>done_sync := True\<rparr>) () = Some (Inr (True, (), evicted q))"
    using forced_try_pop[OF assms(1) n] by (simp_all add: fenced_def)
  show ?thesis
    by (subst push_sample_loop.simps)
      (simp add: try_push_when_full[OF assms] Let_def pop again)
qed


subsection \<open>\<open>pop_sample\<close> and \<open>flush\<close>\<close>

lemma head_contents:
  assumes "queue_inv q" "0 < read_available q"
  shows "item_value (buffer q ! (read_idx q mod size_q q)) = hd (contents q)"
  by (simp add: contents_nonempty[OF assms])

lemma contents_length: "length (contents q) = read_available q"
  by (simp add: contents_def)

lemma pop_sample_nonempty:
  assumes "queue_inv q" "0 < read_available q"
  shows "pop_sample q timeout wakeups = Some (Inr (hd (contents q), popped q None, []))"
  by (simp add: pop_sample_def try_pop_claim[OF assms] move_or_drop1_simps head_contents[OF assms])

lemma wait_for_empty:
  assumes "queue_inv q" "read_available q = 0"
  shows "wait_for q res wakeups = Some (Inr (False, res, q))"
  by (induction wakeups) (simp_all add: try_pop_empty[OF assms])

lemma pop_sample_empty:
  assumes "queue_inv q" "read_available q = 0"
  shows "pop_sample q timeout wakeups =
    Some (Inr (None, q, if timeout > 0 then [Lock_mutex, Wait_for timeout] else []))"
  by (simp add: pop_sample_def try_pop_empty[OF assms] wait_for_empty[OF assms] del: wait_for.simps)

lemma dropping_try_pop:
  assumes "queue_inv q" "0 < read_available q"
  shows "try_pop move_or_drop0 q () =
    Some (Inr (True, (), popped q (item_value (buffer q ! (read_idx q mod size_q q)))))"
  by (simp add: try_pop_claim[OF assms] move_or_drop0_simps)

lemma flush_loop_counts:
  assumes "queue_inv q"
  shows "\<exists>q'. flush_loop q n = Some (Inr (n + read_available q, q')) \<and> queue_inv q' \<and>
    read_available q' = 0 \<and> size_q q' = size_q q \<and> done_sync q' = done_sync q \<and>
    (read_available q = 0 \<longrightarrow> q' = q)"
  using assms
proof (induction "read_available q" arbitrary: q n)
  case 0
  then show ?case
    by (subst flush_loop.simps) (simp add: try_pop_empty)
next
  case (Suc m)
  let ?q1 = "popped q (item_value (buffer q ! (read_idx q mod size_q q)))"
  have pos: "0 < read_available q" using Suc.hyps(2) by simp
  have q1: "queue_inv ?q1" "read_available ?q1 = m"
    using popped_inv[OF Suc.prems pos] popped_available[OF Suc.prems pos] Suc.hyps(2) by simp_all
  obtain q' where q': "flush_loop ?q1 (n + 1) = Some (Inr (n + 1 + read_available ?q1, q'))"
      "queue_inv q'" "read_available q' = 0" "size_q q' = size_q ?q1"
      "done_sync q' = done_sync ?q1"
    using Suc.hyps(1)[OF q1(2)[symmetric] q1(1), of "n + 1"] by blast
  have "flush_loop q n = Some (Inr (n + read_available q, q'))"
    using q'(1) q1(2) Suc.hyps(2)
    by (subst flush_loop.simps) (simp add: dropping_try_pop[OF Suc.prems pos])
  then show ?case using q' pos by (auto simp: popped_simps)
qed


subsection \<open>The calls as operations on the list of unread handles\<close>

text \<open>
  Every call on a queue that satisfies the invariant returns, keeps the invariant and
  changes the list of unread handles as \<open>fifo_exec\<close> says.
\<close>

lemma contents_empty: "read_available q = 0 \<Longrightarrow> contents q = []"
  by (simp add: contents_def)

lemma push_sample_sim:
  assumes "queue_inv q"
  shows "\<exists>q' evs. push_sample q x = Some (Inr (q', evs)) \<and> queue_inv q' \<and>
    size_q q' = size_q q \<and> contents q' = fifo_push (size_q q) (contents q) x \<and>
    fence_once q evs q'"
proof -
  have n: "read_available q \<le> size_q q" "0 < size_q q"
    using assms by (simp_all add: queue_inv_def)
  consider (free) "read_available q < size_q q"
    | (single) "read_available q = size_q q" "size_q q = 1"
    | (full) "read_available q = size_q q" "2 \<le> size_q q"
    using n by linarith
  then show ?thesis
  proof cases
    case free
    have "push_sample q x = Some (Inr (pushed q x, [Lock_mutex, Notify_one]))"
      by (simp add: push_sample_def
          push_sample_loop_direct[OF try_push_not_full[OF assms free]])
    then show ?thesis
      using pushed_inv[OF assms free] pushed_contents[OF assms free] free
      by (simp add: pushed_simps fifo_push_def contents_length fence_once_def)
  next
    case single
    then have one: "read_available q = 1" by simp
    have "push_sample q x = Some (Inr (pushed q x, [Lock_mutex, Notify_one]))"
      by (simp add: push_sample_def
          push_sample_loop_direct[OF pushed_single_full(1)[OF assms single(2) one]])
    then show ?thesis
      using pushed_single_full(2,3)[OF assms single(2) one] single
      by (simp add: pushed_simps fifo_push_def contents_length fence_once_def contents_empty)
  next
    case full
    have pos: "0 < read_available q" using full by simp
    have free: "read_available (evicted q) < size_q (evicted q)"
      using evicted_facts(2,4)[OF assms pos] pos full(1) by simp
    have "push_sample q x = Some (Inr (pushed (evicted q) x,
        (if done_sync q then [] else [Acquire_fence]) @ [Lock_mutex, Notify_one]))"
      by (simp add: push_sample_def push_sample_loop_evict[OF assms full])
    then show ?thesis
      using pushed_inv[OF evicted_facts(1)[OF assms pos] free]
        pushed_contents[OF evicted_facts(1)[OF assms pos] free]
        evicted_facts(3,4,5)[OF assms pos] full
      by (simp add: pushed_simps fifo_push_def contents_length fence_once_def)
  qed
qed

lemma pop_sample_sim:
  assumes "queue_inv q"
  shows "\<exists>q' evs. pop_sample q timeout wakeups =
      Some (Inr (case contents q of [] \<Rightarrow> None | c # rest \<Rightarrow> c, q', evs)) \<and>
    queue_inv q' \<and> size_q q' = size_q q \<and> contents q' = tl (contents q) \<and>
    done_sync q' = done_sync q \<and> Acquire_fence \<notin> set evs"
proof (cases "read_available q = 0")
  case True
  then show ?thesis
    using assms by (simp add: pop_sample_empty[OF assms True] contents_empty)
next
  case False
  then have pos: "0 < read_available q" by simp
  have "contents q \<noteq> []" using pos contents_length[of q] by auto
  then have "(case contents q of [] \<Rightarrow> None | c # rest \<Rightarrow> c) = hd (contents q)"
    by (cases "contents q") simp_all
  then show ?thesis
    using popped_inv[OF assms pos] popped_contents[OF assms pos]
    by (simp add: pop_sample_nonempty[OF assms pos] popped_simps)
qed

lemma flush_sim:
  assumes "queue_inv q"
  shows "\<exists>q'. flush q = Some (Inr (length (contents q), q')) \<and>
    queue_inv q' \<and> size_q q' = size_q q \<and> contents q' = [] \<and> done_sync q' = done_sync q"
  using flush_loop_counts[OF assms, of 0]
  by (auto simp: flush_def contents_length contents_empty)

lemma fence_once_none:
  "done_sync q' = done_sync q \<Longrightarrow> Acquire_fence \<notin> set evs \<Longrightarrow> fence_once q evs q'"
  by (simp add: fence_once_def count_list_0_iff)

lemma exec_op_sim:
  assumes "queue_inv q"
  shows "\<exists>q' evs. exec_op q operation =
      Some (Inr (fst (fifo_exec (size_q q) (contents q) operation), q', evs)) \<and>
    queue_inv q' \<and> size_q q' = size_q q \<and>
    contents q' = snd (fifo_exec (size_q q) (contents q) operation) \<and> fence_once q evs q'"
proof (cases operation)
  case (Push x)
  then show ?thesis
    using push_sample_sim[OF assms, of x] by (auto simp: exec_op_def)
next
  case (Pop timeout wakeups)
  then show ?thesis
    using pop_sample_sim[OF assms, of timeout wakeups]
    by (auto simp: exec_op_def intro: fence_once_none)
next
  case Flush
  then show ?thesis
    using flush_sim[OF assms] by (auto simp: exec_op_def fence_once_def)
qed

lemma fence_once_trans:
  assumes "fence_once q evs1 q1" "fence_once q1 evs2 q2"
  shows "fence_once q (evs1 @ evs2) q2"
  using assms by (auto simp: fence_once_def split: if_splits)

lemma run_sim:
  assumes "queue_inv q"
  shows "\<exists>q' evs. run q ops = Some (Inr (fst (fifo_run (size_q q) (contents q) ops), q', evs)) \<and>
    queue_inv q' \<and> size_q q' = size_q q \<and>
    contents q' = snd (fifo_run (size_q q) (contents q) ops) \<and> fence_once q evs q'"
  using assms
proof (induction ops arbitrary: q)
  case Nil
  then show ?case by (simp add: fence_once_def)
next
  case (Cons operation ops)
  obtain q1 evs1 where 1: "exec_op q operation =
      Some (Inr (fst (fifo_exec (size_q q) (contents q) operation), q1, evs1))"
    "queue_inv q1" "size_q q1 = size_q q"
    "contents q1 = snd (fifo_exec (size_q q) (contents q) operation)" "fence_once q evs1 q1"
    using exec_op_sim[OF Cons.prems, of operation] by blast
  obtain q2 evs2 where 2: "run q1 ops =
      Some (Inr (fst (fifo_run (size_q q1) (contents q1) ops), q2, evs2))"
    "queue_inv q2" "size_q q2 = size_q q1"
    "contents q2 = snd (fifo_run (size_q q1) (contents q1) ops)" "fence_once q1 evs2 q2"
    using Cons.IH[OF 1(2)] by blast
  have "run q (operation # ops) =
      Some (Inr (fst (fifo_run (size_q q) (contents q) (operation # ops)), q2, evs1 @ evs2))"
    using 1(1,3,4) 2(1) by (simp add: split_beta)
  moreover have "contents q2 = snd (fifo_run (size_q q) (contents q) (operation # ops))"
    using 1(3,4) 2(4) by (simp add: split_beta)
  moreover have "size_q q2 = size_q q" using 1(3) 2(3) by simp
  ultimately show ?case
    using 2(2) fence_once_trans[OF 1(5) 2(5)] by blast
qed

lemma new_queue_inv: "0 < C \<Longrightarrow> queue_inv (new_queue C)"
  by (simp add: queue_inv_def new_queue_def read_available_def)

lemma new_queue_contents: "contents (new_queue C) = []"
  by (simp add: contents_def new_queue_def read_available_def)

lemma run_total:
  assumes "queue_inv q"
  obtains outs q' evs where "run q ops = Some (Inr (outs, q', evs))"
  using run_sim[OF assms, of ops] by blast

lemma run_determ_inv:
  assumes "queue_inv q" "run q ops = Some (Inr (outs, q', evs))"
  shows "queue_inv q'" "size_q q' = size_q q"
    "outs = fst (fifo_run (size_q q) (contents q) ops)"
    "contents q' = snd (fifo_run (size_q q) (contents q) ops)" "fence_once q evs q'"
  using run_sim[OF assms(1), of ops] assms(2) by auto

lemma reachable_inv: "reachable q \<Longrightarrow> queue_inv q"
  unfolding reachable_def using run_determ_inv(1)[OF new_queue_inv] by blast

subsection \<open>Markers and the number of unread slots\<close>

lemma slot_surj:
  assumes "0 < C" "i < C"
  shows "\<exists>k<C. (r + k) mod C = (i::nat)"
proof (intro exI conjI)
  let ?k = "(i + (C - r mod C)) mod C"
  show "?k < C" using assms(1) by simp
  have "r mod C < C" using assms(1) by simp
  then have "r mod C + (i + (C - r mod C)) = i + C" by simp
  then have "(r mod C + (i + (C - r mod C))) mod C = i" using assms(2) by simp
  moreover have "(r + ?k) mod C = (r mod C + (i + (C - r mod C))) mod C"
    by (simp add: mod_simps)
  ultimately show "(r + ?k) mod C = i" by simp
qed

lemma inv_marker_bound:
  assumes "queue_inv q" "it \<in> set (buffer q)"
  shows "seq_state it < wrap_at q"
proof -
  have q: "0 < size_q q" "length (buffer q) = size_q q" "0 < wrap_at q"
    using assms(1) by (simp_all add: queue_inv_def)
  obtain i where i: "i < size_q q" "it = buffer q ! i"
    using assms(2) q(2) by (metis in_set_conv_nth)
  obtain k where k: "k < size_q q" "(read_idx q + k) mod size_q q = i"
    using slot_surj[OF q(1) i(1)] by blast
  show ?thesis
    using inv_marker[OF assms(1) k(1)] k(2) i(2) q(3) by simp
qed

lemma filter_less_upt: "n \<le> C \<Longrightarrow> filter (\<lambda>k. k < n) [0..<C] = [0..<n]"
proof (induction C)
  case 0
  then show ?case by simp
next
  case (Suc C)
  show ?case
  proof (cases "n \<le> C")
    case True
    then show ?thesis using Suc.IH by simp
  next
    case False
    then have "n = Suc C" using Suc.prems by simp
    then show ?thesis by (simp add: filter_id_conv)
  qed
qed

lemma unread_slots_available:
  assumes "queue_inv q"
  shows "unread_slots q = read_available q"
proof -
  have q: "2 \<le> wrap_at q" "read_available q \<le> size_q q"
    using assms by (simp_all add: queue_inv_def)
  have "holds_unread q k \<longleftrightarrow> k < read_available q" if "k < size_q q" for k
  proof -
    have "(read_idx q + k + 1) mod wrap_at q \<noteq> (read_idx q + k) mod wrap_at q"
      using mod_neq[of "read_idx q + k" "read_idx q + k + 1" "wrap_at q"] q(1) by simp
    then show ?thesis
      using inv_marker[OF assms that] by (auto simp: holds_unread_def)
  qed
  then have "filter (holds_unread q) [0..<size_q q] =
      filter (\<lambda>k. k < read_available q) [0..<size_q q]"
    by (intro filter_cong) simp_all
  also have "\<dots> = [0..<read_available q]"
    using q(2) by (rule filter_less_upt)
  finally show ?thesis by (simp add: unread_slots_def)
qed

lemma read_available_int:
  assumes "read_idx q < wrap_at q"
  shows "int (read_available q) = (int (write_idx q) - int (read_idx q)) mod int (wrap_at q)"
proof -
  have "int (write_idx q + wrap_at q - read_idx q) =
      int (write_idx q) - int (read_idx q) + int (wrap_at q)"
    using assms by simp
  then show ?thesis
    by (simp add: read_available_def zmod_int del: of_nat_diff)
qed

section \<open>The claims\<close>

subsection \<open>Reachable states and example runs\<close>

lemma reachable_new_queue: "0 < C \<Longrightarrow> reachable (new_queue C)"
  unfolding reachable_def by (intro exI[of _ C] exI[of _ "[]"]) simp

lemma reachableI:
  "0 < C \<Longrightarrow> run (new_queue C) ops = Some (Inr (outs, q, evs)) \<Longrightarrow> reachable q"
  unfolding reachable_def by blast

lemma new_queue_size: "size_q (new_queue C) = C"
  by (simp add: new_queue_def)

lemma run_one_push:
  "run ((new_queue 2 :: nat consumer_queue)) [Push (Some (10::nat))] =
     Some (Inr ([Pushed], pushed ((new_queue 2 :: nat consumer_queue)) (Some 10), [Lock_mutex, Notify_one]))"
  by code_simp

lemma run_two_pushes:
  "run ((new_queue 2 :: nat consumer_queue)) [Push (Some (10::nat)), Push (Some 20)] =
     Some (Inr ([Pushed, Pushed], pushed (pushed ((new_queue 2 :: nat consumer_queue)) (Some 10)) (Some 20),
       [Lock_mutex, Notify_one, Lock_mutex, Notify_one]))"
  by code_simp

lemma inv_empty_q: "queue_inv q \<Longrightarrow> read_available q = 0 \<Longrightarrow> empty_q q"
  using inv_write_idx[of q] by (simp add: empty_q_def queue_inv_def)

lemma flush_result:
  assumes "queue_inv q"
  obtains q' where "flush q = Some (Inr (read_available q, q'))" "queue_inv q'"
    "read_available q' = 0" "read_available q = 0 \<Longrightarrow> q' = q"
proof -
  from flush_loop_counts[OF assms, of 0] obtain q' where
    "flush_loop q 0 = Some (Inr (0 + read_available q, q'))" "queue_inv q'"
    "read_available q' = 0" "read_available q = 0 \<longrightarrow> q' = q"
    by (elim exE conjE)
  then show ?thesis using that by (simp add: flush_def)
qed

lemma samples_append: "samples (xs @ ys) = samples xs @ samples ys"
  by (induction xs rule: samples.induct) simp_all

lemma samples_tl: "subseq (samples (tl cs)) (samples cs)"
  by (cases cs rule: samples.cases) auto

lemma fifo_push_subseq: "subseq (samples (fifo_push C cs x)) (samples cs @ samples [x])"
  using samples_tl[of cs]
  by (auto simp: fifo_push_def samples_append intro: list_emb_append_mono)

lemma fifo_run_subseq:
  "subseq (samples (popped_handles (fst (fifo_run C cs ops))) @ samples (snd (fifo_run C cs ops)))
     (samples cs @ samples (pushed_handles ops))"
proof (induction ops arbitrary: cs)
  case Nil
  then show ?case by simp
next
  case (Cons operation ops)
  show ?case
  proof (cases operation)
    case (Push x)
    have "subseq (samples (fifo_push C cs x) @ samples (pushed_handles ops))
        ((samples cs @ samples [x]) @ samples (pushed_handles ops))"
      by (intro list_emb_append_mono fifo_push_subseq) simp
    then show ?thesis
      using Cons.IH[of "fifo_push C cs x"] Push
      by (simp add: split_beta samples_append[symmetric])
  next
    case (Pop timeout wakeups)
    show ?thesis
    proof (cases cs)
      case Nil
      then show ?thesis using Cons.IH[of "[]"] Pop by (simp add: split_beta)
    next
      case (Cons c rest)
      have "subseq (samples [c] @ samples (popped_handles (fst (fifo_run C rest ops))) @
              samples (snd (fifo_run C rest ops)))
          (samples [c] @ samples rest @ samples (pushed_handles ops))"
        using Cons.IH[of rest] by (simp add: subseq_append')
      then show ?thesis
        using Pop Cons by (cases c) (simp_all add: split_beta)
    qed
  next
    case Flush
    then show ?thesis
      using Cons.IH[of "[]"] by (simp add: split_beta subseq_drop_many)
  qed
qed

lemma try_push_single_slot:
  assumes "size_q q = 1" "length (buffer q) = 1" "try_push q x = Inr (True, q1)"
  shows "\<exists>q2. try_push q1 y = Inr (True, q2)"
proof -
  have i: "item_index q idx = Inr 0" for idx
    using assms(1,2) by (simp add: item_index_def)
  have m: "seq_state (buffer q ! 0) = write_idx q"
    using assms(3) unfolding try_push_def Let_def i by (auto split: if_splits)
  then have q1: "q1 = q\<lparr>write_idx := add_wrap q (write_idx q) 1,
      buffer := [\<lparr>seq_state = add_wrap q (write_idx q) 1, item_value = x\<rparr>]\<rparr>"
    using assms(2,3) unfolding try_push_def Let_def i copy_or_move_def
    by (cases "buffer q") (auto simp: item_both_upd)
  have i1: "item_index q1 idx = Inr 0" for idx
    using assms(1) by (simp add: item_index_def q1)
  show ?thesis
    unfolding try_push_def Let_def i1 by (simp add: q1)
qed

lemma drop_oldest:
  assumes "reachable q" "2 \<le> size_q q" "unread_slots q = size_q q"
  shows "\<exists>q' evs. push_sample q x = Some (Inr (q', evs)) \<and>
    contents q' = tl (contents q) @ [x] \<and>
    hd (contents q) = item_value (buffer q ! (read_idx q mod size_q q)) \<and>
    length (contents q) = size_q q \<and> unread_slots q' = size_q q"
proof -
  have inv: "queue_inv q" by (rule reachable_inv[OF assms(1)])
  have full: "read_available q = size_q q"
    using assms(3) by (simp add: unread_slots_available[OF inv])
  then have pos: "0 < read_available q" using assms(2) by simp
  obtain q' evs where q': "push_sample q x = Some (Inr (q', evs))" "queue_inv q'"
    "size_q q' = size_q q" "contents q' = fifo_push (size_q q) (contents q) x"
    using push_sample_sim[OF inv, of x] by (elim exE conjE)
  have c: "contents q' = tl (contents q) @ [x]"
    using q'(4) full assms(2) by (simp add: fifo_push_def contents_length)
  have "length (contents q') = size_q q"
    using c full pos by (simp add: contents_length)
  then have u: "unread_slots q' = size_q q"
    by (simp add: unread_slots_available[OF q'(2)] contents_length)
  show ?thesis
    using q'(1) c head_contents[OF inv pos] full u
    by (intro exI[of _ q'] exI[of _ evs]) (simp add: contents_length)
qed

lemma drop_oldest_scenario:
  "run (new_queue 3)
     [Push (Some ''A''), Push (Some ''B''), Push (Some ''C''), Push (Some ''D'')] =
     Some (Inr ([Pushed, Pushed, Pushed, Pushed],
       \<lparr>buffer = [\<lparr>seq_state = 4, item_value = Some ''D''\<rparr>,
                  \<lparr>seq_state = 2, item_value = Some ''B''\<rparr>,
                  \<lparr>seq_state = 3, item_value = Some ''C''\<rparr>],
        size_q = 3, wrap_at = 6, done_sync = True, write_idx = 4, read_idx = 1\<rparr>,
       [Lock_mutex, Notify_one, Lock_mutex, Notify_one, Lock_mutex, Notify_one,
        Acquire_fence, Lock_mutex, Notify_one])) \<and>
   contents \<lparr>buffer = [\<lparr>seq_state = 4, item_value = Some ''D''\<rparr>,
                  \<lparr>seq_state = 2, item_value = Some ''B''\<rparr>,
                  \<lparr>seq_state = 3, item_value = Some ''C''\<rparr>],
        size_q = 3, wrap_at = 6, done_sync = True, write_idx = 4, read_idx = 1\<rparr> =
     [Some ''B'', Some ''C'', Some ''D''] \<and>
   run (new_queue 3)
     [Push (Some ''A''), Push (Some ''B''), Push (Some ''C''), Push (Some ''D''),
      Pop 1 0, Pop 1 0, Pop 1 0, Pop (1 / 10) 2] =
     Some (Inr ([Pushed, Pushed, Pushed, Pushed, Popped (Some ''B''), Popped (Some ''C''),
                 Popped (Some ''D''), Popped None],
       \<lparr>buffer = [\<lparr>seq_state = 0, item_value = None\<rparr>, \<lparr>seq_state = 4, item_value = None\<rparr>,
                  \<lparr>seq_state = 5, item_value = None\<rparr>],
        size_q = 3, wrap_at = 6, done_sync = True, write_idx = 4, read_idx = 4\<rparr>,
       [Lock_mutex, Notify_one, Lock_mutex, Notify_one, Lock_mutex, Notify_one,
        Acquire_fence, Lock_mutex, Notify_one, Lock_mutex, Wait_for (1 / 10)]))"
  by code_simp

lemma returned_in_push_order:
  assumes "0 < C" "run (new_queue C) ops = Some (Inr (outs, q, evs))"
  shows "subseq (samples (popped_handles outs) @ samples (contents q))
    (samples (pushed_handles ops))"
  using fifo_run_subseq[of C "[]" ops]
    run_determ_inv(3,4)[OF new_queue_inv[OF assms(1)] assms(2)]
  by (simp add: new_queue_contents new_queue_size)

lemma departed_append: "departed (xs @ ys) = departed xs @ departed ys"
  by (induction xs rule: departed.induct) simp_all

lemma returned_append: "returned (xs @ ys) = returned xs @ returned ys"
  by (induction xs rule: returned.induct) simp_all

lemma departed_Discarded: "departed (map Discarded xs) = xs"
  by (induction xs) simp_all

lemma returned_Discarded: "returned (map Discarded xs) = []"
  by (induction xs) simp_all

lemma take1_tl: "take 1 cs @ tl cs = cs"
  by (cases cs) simp_all

lemma spec_exec_departed:
  "departed (snd (snd (spec_exec C cs operation))) @ fst (snd (spec_exec C cs operation)) =
     cs @ pushed_handles [operation]"
proof (cases operation)
  case (Push x)
  then show ?thesis
    using take1_tl[of cs] by (simp add: departed_Discarded del: take_Suc_Cons One_nat_def)
next
  case (Pop timeout wakeups)
  then show ?thesis by (cases cs) simp_all
next
  case Flush
  then show ?thesis by (simp add: departed_Discarded)
qed

lemma pushed_handles_Cons:
  "pushed_handles (operation # ops) = pushed_handles [operation] @ pushed_handles ops"
  by (cases operation) simp_all

lemma spec_run_departed:
  "departed (snd (snd (spec_run C cs ops))) @ fst (snd (spec_run C cs ops)) =
     cs @ pushed_handles ops"
proof (induction ops arbitrary: cs)
  case Nil
  then show ?case by simp
next
  case (Cons operation ops)
  have "departed (snd (snd (spec_exec C cs operation))) @
      departed (snd (snd (spec_run C (fst (snd (spec_exec C cs operation))) ops))) @
      fst (snd (spec_run C (fst (snd (spec_exec C cs operation))) ops)) =
      departed (snd (snd (spec_exec C cs operation))) @ fst (snd (spec_exec C cs operation)) @
      pushed_handles ops"
    by (simp only: Cons.IH)
  also have "\<dots> = (cs @ pushed_handles [operation]) @ pushed_handles ops"
    using spec_exec_departed[of C cs operation] by (simp only: append_assoc[symmetric])
  finally show ?case
    by (simp add: split_beta departed_append pushed_handles_Cons[of operation ops])
qed

lemma spec_exec_returned:
  "samples (returned (snd (snd (spec_exec C cs operation)))) =
     samples (popped_handles [fst (spec_exec C cs operation)])"
proof (cases operation)
  case (Push x)
  then show ?thesis by (simp add: returned_Discarded)
next
  case (Pop timeout wakeups)
  then show ?thesis by (cases cs) simp_all
next
  case Flush
  then show ?thesis by (simp add: returned_Discarded)
qed

lemma popped_handles_Cons:
  "popped_handles (out # outs) = popped_handles [out] @ popped_handles outs"
  by (cases out) simp_all

lemma spec_run_returned:
  "samples (returned (snd (snd (spec_run C cs ops)))) =
     samples (popped_handles (fst (spec_run C cs ops)))"
proof (induction ops arbitrary: cs)
  case Nil
  then show ?case by simp
next
  case (Cons operation ops)
  show ?case
    using Cons.IH[of "fst (snd (spec_exec C cs operation))"] spec_exec_returned[of C cs operation]
    by (simp add: split_beta returned_append samples_append
        popped_handles_Cons[of "fst (spec_exec C cs operation)"
          "fst (spec_run C (fst (snd (spec_exec C cs operation))) ops)"])
qed

lemma fifo_exec_spec:
  "2 \<le> C \<Longrightarrow> fifo_exec C cs operation =
     (fst (spec_exec C cs operation), fst (snd (spec_exec C cs operation)))"
  by (cases operation; cases cs) (simp_all add: fifo_push_def)

lemma fifo_run_spec:
  "2 \<le> C \<Longrightarrow> fifo_run C cs ops = (fst (spec_run C cs ops), fst (snd (spec_run C cs ops)))"
proof (induction ops arbitrary: cs)
  case Nil
  then show ?case by simp
next
  case (Cons operation ops)
  show ?case
    using Cons.IH[OF Cons.prems, of "fst (snd (spec_exec C cs operation))"]
      fifo_exec_spec[OF Cons.prems, of cs operation]
    by (simp add: split_beta)
qed

lemma fifo_exact:
  assumes "2 \<le> C" "run (new_queue C) ops = Some (Inr (outs, q, evs))"
  shows "\<exists>ds. spec_run C [] ops = (outs, contents q, ds) \<and>
    departed ds @ contents q = pushed_handles ops \<and>
    samples (returned ds) = samples (popped_handles outs)"
proof -
  have pos: "0 < C" using assms(1) by simp
  have r: "outs = fst (fifo_run C [] ops)" "contents q = snd (fifo_run C [] ops)"
    using run_determ_inv(3,4)[OF new_queue_inv[OF pos] assms(2)]
    by (simp_all add: new_queue_contents new_queue_size)
  have f: "fst (spec_run C [] ops) = outs" "fst (snd (spec_run C [] ops)) = contents q"
    using r fifo_run_spec[OF assms(1), of "[]" ops] by simp_all
  have 1: "spec_run C [] ops = (outs, contents q, snd (snd (spec_run C [] ops)))"
    using f by (simp add: prod_eq_iff)
  have 2: "departed (snd (snd (spec_run C [] ops))) @ contents q = pushed_handles ops"
    using spec_run_departed[of C "[]" ops] unfolding f by simp
  have 3: "samples (returned (snd (snd (spec_run C [] ops)))) = samples (popped_handles outs)"
    using spec_run_returned[of C "[]" ops] unfolding f .
  show ?thesis
    by (intro exI[of _ "snd (snd (spec_run C [] ops))"] conjI) (rule 1 2 3)+
qed


lemma try_pop_loop_spins:
  fixes q :: "'a consumer_queue"
  assumes "item_index q (read_idx q) = Inr i"
    "seq_state (buffer q ! i) \<noteq> read_idx q"
    "seq_state (buffer q ! i) \<noteq> add_wrap q (read_idx q) 1"
  shows "try_pop_loop q (read_idx q) = None"
proof -
  have "\<not> (q' = q \<and> read_index = read_idx q)"
    if "try_pop_loop q' read_index = Some y" for q' read_index y
  proof (rule try_pop_loop.raw_induct[where P = "\<lambda>q' read_index y. \<not> (q' = q \<and> read_index = read_idx q)",
        OF _ that])
    fix f :: "'a consumer_queue \<Rightarrow> nat \<Rightarrow> (fault + (nat \<times> nat) option \<times> 'a consumer_queue) option"
      and q' read_index y
    assume ih: "\<And>q' read_index y. f q' read_index = Some y \<Longrightarrow> \<not> (q' = q \<and> read_index = read_idx q)"
    assume body: "(case item_index q' read_index of
        Inl e \<Rightarrow> Some (Inl e)
      | Inr i \<Rightarrow>
          (let seq = seq_state (buffer q' ! i);
               next_idx = add_wrap q' read_index 1
           in if seq = next_idx then
                (if read_idx q' = read_index
                 then Some (Inr (Some (read_index, i), q'\<lparr>read_idx := next_idx\<rparr>))
                 else f q' (read_idx q'))
              else if seq = read_index then Some (Inr (None, q'))
              else f q' (read_idx q'))) = Some y"
    show "\<not> (q' = q \<and> read_index = read_idx q)"
    proof
      assume e: "q' = q \<and> read_index = read_idx q"
      then have "f q (read_idx q) = Some y"
        using body assms by (simp add: Let_def)
      then show False using ih by blast
    qed
  qed
  then show ?thesis by (cases "try_pop_loop q (read_idx q)") auto
qed

subsection \<open>Theorems\<close>

text \<open>
  C1 (capacity bound). For every positive capacity \<open>C\<close> and every sequence of
  \<open>push_sample\<close>, \<open>pop_sample\<close> and \<open>flush\<close> calls on the queue constructed with it, the
  calls all return, and in the state they lead to the number of slots that hold an unread
  value is \<open>(write_idx - read_idx) mod M\<close> with \<open>M = 2 * C\<close>, and it is at most \<open>C\<close>.
\<close>

theorem capacity_bound:
  assumes "0 < C"
  shows "\<exists>outs q evs. run (new_queue C) ops = Some (Inr (outs, q, evs)) \<and>
    size_q q = C \<and> wrap_at q = 2 * C \<and>
    int (unread_slots q) = (int (write_idx q) - int (read_idx q)) mod int (wrap_at q) \<and>
    unread_slots q \<le> C"
proof -
  have inv: "queue_inv (new_queue C :: 'a consumer_queue)"
    by (rule new_queue_inv[OF assms])
  obtain outs q evs where r: "run (new_queue C :: 'a consumer_queue) ops = Some (Inr (outs, q, evs))"
    by (rule run_total[OF inv])
  have q: "queue_inv q" "size_q q = C"
    using run_determ_inv(1,2)[OF inv r] by (simp_all add: new_queue_def)
  then have M: "wrap_at q = 2 * C" "read_idx q < wrap_at q" "read_available q \<le> C"
    by (simp_all add: queue_inv_def)
  have "int (unread_slots q) = (int (write_idx q) - int (read_idx q)) mod int (wrap_at q)"
    using unread_slots_available[OF q(1)] read_available_int[OF M(2)] by simp
  moreover have "unread_slots q \<le> C"
    using unread_slots_available[OF q(1)] M(3) by simp
  ultimately show ?thesis using r q(2) M(1) by blast
qed

theorem capacity_bound_witness:
  "\<exists>outs q evs.
     run (new_queue 2) [Push (Some (1::nat)), Push (Some 2), Push (Some 3), Pop 0 0] =
       Some (Inr (outs, q, evs)) \<and>
     size_q q = 2 \<and> wrap_at q = 2 * 2 \<and>
     int (unread_slots q) = (int (write_idx q) - int (read_idx q)) mod int (wrap_at q) \<and>
     unread_slots q \<le> 2"
  using capacity_bound[of 2 "[Push (Some (1::nat)), Push (Some 2), Push (Some 3), Pop 0 0]"]
  by simp

text \<open>
  C2 (drop-oldest). The claim: a \<open>push_sample(x)\<close> onto a queue whose \<open>C\<close> slots all hold
  unread values discards the oldest sample and stores \<open>x\<close>. The lemmas before the theorem
  prove this for every capacity of at least two, and the scenario with capacity three
  (push A, B, C, D; the queue holds B, C, D; the pops return B, C, D and then the empty
  handle). With capacity one the code does something else, whatever \<open>wrap_at_\<close> is: the
  marker a push leaves in the only slot is the next write index, so \<open>try_push\<close> never
  reports the queue full. The theorem runs the code there: after \<open>push_sample(A)\<close> the one
  slot holds an unread value; \<open>try_push(B)\<close> succeeds on it, so \<open>push_sample(B)\<close> overwrites
  A without a \<open>try_pop\<close>; afterwards no slot holds an unread value and \<open>pop_sample\<close>
  returns the empty handle.
\<close>

theorem drop_oldest_single_slot:
  "run (new_queue 1) [Push (Some ''A'')] =
     Some (Inr ([Pushed],
       \<lparr>buffer = [\<lparr>seq_state = 1, item_value = Some ''A''\<rparr>], size_q = 1, wrap_at = 2,
        done_sync = False, write_idx = 1, read_idx = 0\<rparr>, [Lock_mutex, Notify_one])) \<and>
   unread_slots \<lparr>buffer = [\<lparr>seq_state = 1, item_value = Some ''A''\<rparr>], size_q = 1, wrap_at = 2,
        done_sync = False, write_idx = 1, read_idx = 0\<rparr> = 1 \<and>
   try_push \<lparr>buffer = [\<lparr>seq_state = 1, item_value = Some ''A''\<rparr>], size_q = 1, wrap_at = 2,
        done_sync = False, write_idx = 1, read_idx = 0\<rparr> (Some ''B'') =
     Inr (True, \<lparr>buffer = [\<lparr>seq_state = 0, item_value = Some ''B''\<rparr>], size_q = 1, wrap_at = 2,
        done_sync = False, write_idx = 0, read_idx = 0\<rparr>) \<and>
   run (new_queue 1) [Push (Some ''A''), Push (Some ''B'')] =
     Some (Inr ([Pushed, Pushed],
       \<lparr>buffer = [\<lparr>seq_state = 0, item_value = Some ''B''\<rparr>], size_q = 1, wrap_at = 2,
        done_sync = False, write_idx = 0, read_idx = 0\<rparr>,
       [Lock_mutex, Notify_one, Lock_mutex, Notify_one])) \<and>
   contents \<lparr>buffer = [\<lparr>seq_state = 0, item_value = Some ''B''\<rparr>], size_q = 1, wrap_at = 2,
        done_sync = False, write_idx = 0, read_idx = 0\<rparr> = [] \<and>
   run (new_queue 1) [Push (Some ''A''), Push (Some ''B''), Pop 0 0] =
     Some (Inr ([Pushed, Pushed, Popped None],
       \<lparr>buffer = [\<lparr>seq_state = 0, item_value = Some ''B''\<rparr>], size_q = 1, wrap_at = 2,
        done_sync = False, write_idx = 0, read_idx = 0\<rparr>,
       [Lock_mutex, Notify_one, Lock_mutex, Notify_one]))"
  by code_simp

text \<open>
  C3 (push termination), as amended. In every state that complete calls lead to (so that
  no consumer stands between the compare-and-swap of its \<open>try_pop\<close> and its marker store),
  \<open>push_sample\<close> returns, and it does so in one of two ways: \<open>try_push\<close> succeeds at once;
  or \<open>try_push\<close> fails and changes nothing, one forced \<open>try_pop()\<close> (after the fence
  branch) claims a slot, which leaves fewer unread slots than before, and the second
  \<open>try_push\<close> succeeds. The loop makes at most one \<open>try_pop\<close>.

  Without the restriction the claim fails, as the theorem after the witness shows by
  running the code. A queue of three slots holds 10, 20 and 30. The loop of a consumer's
  \<open>try_pop\<close> claims slot 0: \<open>read_idx_\<close> becomes 1 and the marker of slot 0 is still 1,
  since the consumer has not reached its marker store. In this state \<open>push_sample(40)\<close>
  finds \<open>try_push\<close> failing on slot 0, evicts 20, finds \<open>try_push\<close> failing again, evicts
  30, finds \<open>try_push\<close> failing a third time, and its third \<open>try_pop()\<close> finds in slot 0
  neither the marker of a filled slot nor that of an empty queue and repeats its loop:
  two samples are evicted, and \<open>push_sample\<close> does not return for as long as the consumer
  has not stored its marker.
\<close>

theorem push_sample_one_eviction:
  assumes "reachable q"
  shows "(\<exists>q'. try_push q sample = Inr (True, q') \<and>
       push_sample q sample = Some (Inr (q', [Lock_mutex, Notify_one]))) \<or>
    (\<exists>q1 q'. try_push q sample = Inr (False, q) \<and>
       try_pop move_or_drop0 (fenced q) () = Some (Inr (True, (), q1)) \<and>
       unread_slots q1 < unread_slots q \<and>
       try_push q1 sample = Inr (True, q') \<and>
       push_sample q sample =
         Some (Inr (q', (if done_sync q then [] else [Acquire_fence]) @
           [Lock_mutex, Notify_one])))"
proof -
  have inv: "queue_inv q" by (rule reachable_inv[OF assms])
  have n: "read_available q \<le> size_q q" "0 < size_q q"
    using inv by (simp_all add: queue_inv_def)
  consider (free) "read_available q < size_q q"
    | (single) "read_available q = size_q q" "size_q q = 1"
    | (full) "read_available q = size_q q" "2 \<le> size_q q"
    using n by linarith
  then show ?thesis
  proof cases
    case free
    have "try_push q sample = Inr (True, pushed q sample)"
      by (rule try_push_not_full[OF inv free])
    then show ?thesis
      by (intro disjI1 exI[of _ "pushed q sample"])
        (simp add: push_sample_def push_sample_loop_direct)
  next
    case single
    then have one: "read_available q = 1" by simp
    have "try_push q sample = Inr (True, pushed q sample)"
      by (rule pushed_single_full(1)[OF inv single(2) one])
    then show ?thesis
      by (intro disjI1 exI[of _ "pushed q sample"])
        (simp add: push_sample_def push_sample_loop_direct)
  next
    case full
    have pos: "0 < read_available q" using full by simp
    have ev: "queue_inv (evicted q)" "read_available (evicted q) = read_available q - 1"
      "size_q (evicted q) = size_q q"
      by (rule evicted_facts[OF inv pos])+
    have free: "read_available (evicted q) < size_q (evicted q)"
      using ev(2,3) pos full(1) by simp
    have 1: "try_push q sample = Inr (False, q)"
      by (rule try_push_when_full[OF inv full])
    have 2: "try_pop move_or_drop0 (fenced q) () = Some (Inr (True, (), evicted q))"
      by (rule forced_try_pop[OF inv pos])
    have 3: "unread_slots (evicted q) < unread_slots q"
      using ev(2) pos by (simp add: unread_slots_available[OF inv] unread_slots_available[OF ev(1)])
    have 4: "try_push (evicted q) sample = Inr (True, pushed (evicted q) sample)"
      by (rule try_push_not_full[OF ev(1) free])
    have 5: "push_sample q sample =
         Some (Inr (pushed (evicted q) sample, (if done_sync q then [] else [Acquire_fence]) @
           [Lock_mutex, Notify_one]))"
      by (simp add: push_sample_def push_sample_loop_evict[OF inv full])
    show ?thesis
      by (intro disjI2 exI[of _ "evicted q"] exI[of _ "pushed (evicted q) sample"] conjI)
        (rule 1 2 3 4 5)+
  qed
qed

theorem push_sample_one_eviction_witness:
  "reachable (pushed (pushed ((new_queue 2 :: nat consumer_queue)) (Some (10::nat))) (Some 20)) \<and>
   try_push (pushed (pushed ((new_queue 2 :: nat consumer_queue)) (Some (10::nat))) (Some 20)) (Some 30) =
     Inr (False, pushed (pushed ((new_queue 2 :: nat consumer_queue)) (Some 10)) (Some 20)) \<and>
   (\<exists>q1 q'.
      try_pop move_or_drop0 (fenced (pushed (pushed ((new_queue 2 :: nat consumer_queue)) (Some 10)) (Some 20))) () =
        Some (Inr (True, (), q1)) \<and>
      unread_slots q1 < unread_slots (pushed (pushed ((new_queue 2 :: nat consumer_queue)) (Some 10)) (Some 20)) \<and>
      try_push q1 (Some 30) = Inr (True, q') \<and>
      push_sample (pushed (pushed ((new_queue 2 :: nat consumer_queue)) (Some 10)) (Some 20)) (Some 30) =
        Some (Inr (q', [Acquire_fence, Lock_mutex, Notify_one])))"
proof -
  let ?q = "pushed (pushed ((new_queue 2 :: nat consumer_queue)) (Some (10::nat))) (Some 20)"
  have r: "reachable ?q"
    by (rule reachableI[OF _ run_two_pushes]) simp
  have f: "try_push ?q (Some 30) = Inr (False, ?q)"
    by code_simp
  have d: "\<not> done_sync ?q"
    by (simp add: pushed_simps new_queue_def)
  show ?thesis
    using r f d push_sample_one_eviction[OF r, of "Some 30"] by simp
qed

theorem push_sample_stalled_consumer:
  "run (new_queue 3) [Push (Some (10::nat)), Push (Some 20), Push (Some 30)] =
     Some (Inr ([Pushed, Pushed, Pushed],
       \<lparr>buffer = [\<lparr>seq_state = 1, item_value = Some (10::nat)\<rparr>,
                  \<lparr>seq_state = 2, item_value = Some 20\<rparr>,
                  \<lparr>seq_state = 3, item_value = Some 30\<rparr>],
        size_q = 3, wrap_at = 6, done_sync = False, write_idx = 3, read_idx = 0\<rparr>,
       [Lock_mutex, Notify_one, Lock_mutex, Notify_one, Lock_mutex, Notify_one])) \<and>
   try_pop_loop
       \<lparr>buffer = [\<lparr>seq_state = 1, item_value = Some (10::nat)\<rparr>,
                  \<lparr>seq_state = 2, item_value = Some 20\<rparr>,
                  \<lparr>seq_state = 3, item_value = Some 30\<rparr>],
        size_q = 3, wrap_at = 6, done_sync = False, write_idx = 3, read_idx = 0\<rparr> 0 =
     Some (Inr (Some (0, 0),
       \<lparr>buffer = [\<lparr>seq_state = 1, item_value = Some (10::nat)\<rparr>,
                  \<lparr>seq_state = 2, item_value = Some 20\<rparr>,
                  \<lparr>seq_state = 3, item_value = Some 30\<rparr>],
        size_q = 3, wrap_at = 6, done_sync = False, write_idx = 3, read_idx = 1\<rparr>)) \<and>
   try_push
       \<lparr>buffer = [\<lparr>seq_state = 1, item_value = Some (10::nat)\<rparr>,
                  \<lparr>seq_state = 2, item_value = Some 20\<rparr>,
                  \<lparr>seq_state = 3, item_value = Some 30\<rparr>],
        size_q = 3, wrap_at = 6, done_sync = False, write_idx = 3, read_idx = 1\<rparr> (Some 40) =
     Inr (False,
       \<lparr>buffer = [\<lparr>seq_state = 1, item_value = Some (10::nat)\<rparr>,
                  \<lparr>seq_state = 2, item_value = Some 20\<rparr>,
                  \<lparr>seq_state = 3, item_value = Some 30\<rparr>],
        size_q = 3, wrap_at = 6, done_sync = False, write_idx = 3, read_idx = 1\<rparr>) \<and>
   fenced
       \<lparr>buffer = [\<lparr>seq_state = 1, item_value = Some (10::nat)\<rparr>,
                  \<lparr>seq_state = 2, item_value = Some 20\<rparr>,
                  \<lparr>seq_state = 3, item_value = Some 30\<rparr>],
        size_q = 3, wrap_at = 6, done_sync = False, write_idx = 3, read_idx = 1\<rparr> =
       \<lparr>buffer = [\<lparr>seq_state = 1, item_value = Some (10::nat)\<rparr>,
                  \<lparr>seq_state = 2, item_value = Some 20\<rparr>,
                  \<lparr>seq_state = 3, item_value = Some 30\<rparr>],
        size_q = 3, wrap_at = 6, done_sync = True, write_idx = 3, read_idx = 1\<rparr> \<and>
   try_pop move_or_drop0
       \<lparr>buffer = [\<lparr>seq_state = 1, item_value = Some (10::nat)\<rparr>,
                  \<lparr>seq_state = 2, item_value = Some 20\<rparr>,
                  \<lparr>seq_state = 3, item_value = Some 30\<rparr>],
        size_q = 3, wrap_at = 6, done_sync = True, write_idx = 3, read_idx = 1\<rparr> () =
     Some (Inr (True, (),
       \<lparr>buffer = [\<lparr>seq_state = 1, item_value = Some (10::nat)\<rparr>,
                  \<lparr>seq_state = 4, item_value = Some 20\<rparr>,
                  \<lparr>seq_state = 3, item_value = Some 30\<rparr>],
        size_q = 3, wrap_at = 6, done_sync = True, write_idx = 3, read_idx = 2\<rparr>)) \<and>
   try_push
       \<lparr>buffer = [\<lparr>seq_state = 1, item_value = Some (10::nat)\<rparr>,
                  \<lparr>seq_state = 4, item_value = Some 20\<rparr>,
                  \<lparr>seq_state = 3, item_value = Some 30\<rparr>],
        size_q = 3, wrap_at = 6, done_sync = True, write_idx = 3, read_idx = 2\<rparr> (Some 40) =
     Inr (False,
       \<lparr>buffer = [\<lparr>seq_state = 1, item_value = Some (10::nat)\<rparr>,
                  \<lparr>seq_state = 4, item_value = Some 20\<rparr>,
                  \<lparr>seq_state = 3, item_value = Some 30\<rparr>],
        size_q = 3, wrap_at = 6, done_sync = True, write_idx = 3, read_idx = 2\<rparr>) \<and>
   try_pop move_or_drop0
       \<lparr>buffer = [\<lparr>seq_state = 1, item_value = Some (10::nat)\<rparr>,
                  \<lparr>seq_state = 4, item_value = Some 20\<rparr>,
                  \<lparr>seq_state = 3, item_value = Some 30\<rparr>],
        size_q = 3, wrap_at = 6, done_sync = True, write_idx = 3, read_idx = 2\<rparr> () =
     Some (Inr (True, (),
       \<lparr>buffer = [\<lparr>seq_state = 1, item_value = Some (10::nat)\<rparr>,
                  \<lparr>seq_state = 4, item_value = Some 20\<rparr>,
                  \<lparr>seq_state = 5, item_value = Some 30\<rparr>],
        size_q = 3, wrap_at = 6, done_sync = True, write_idx = 3, read_idx = 3\<rparr>)) \<and>
   try_push
       \<lparr>buffer = [\<lparr>seq_state = 1, item_value = Some (10::nat)\<rparr>,
                  \<lparr>seq_state = 4, item_value = Some 20\<rparr>,
                  \<lparr>seq_state = 5, item_value = Some 30\<rparr>],
        size_q = 3, wrap_at = 6, done_sync = True, write_idx = 3, read_idx = 3\<rparr> (Some 40) =
     Inr (False,
       \<lparr>buffer = [\<lparr>seq_state = 1, item_value = Some (10::nat)\<rparr>,
                  \<lparr>seq_state = 4, item_value = Some 20\<rparr>,
                  \<lparr>seq_state = 5, item_value = Some 30\<rparr>],
        size_q = 3, wrap_at = 6, done_sync = True, write_idx = 3, read_idx = 3\<rparr>) \<and>
   try_pop move_or_drop0
       \<lparr>buffer = [\<lparr>seq_state = 1, item_value = Some (10::nat)\<rparr>,
                  \<lparr>seq_state = 4, item_value = Some 20\<rparr>,
                  \<lparr>seq_state = 5, item_value = Some 30\<rparr>],
        size_q = 3, wrap_at = 6, done_sync = True, write_idx = 3, read_idx = 3\<rparr> () = None \<and>
   push_sample
       \<lparr>buffer = [\<lparr>seq_state = 1, item_value = Some (10::nat)\<rparr>,
                  \<lparr>seq_state = 2, item_value = Some 20\<rparr>,
                  \<lparr>seq_state = 3, item_value = Some 30\<rparr>],
        size_q = 3, wrap_at = 6, done_sync = False, write_idx = 3, read_idx = 1\<rparr> (Some 40) = None"
  (is "?run \<and> ?claim \<and> ?push1 \<and> ?fence \<and> ?pop1 \<and> ?push2 \<and> ?pop2 \<and> ?push3 \<and> ?pop3 \<and> ?none")
proof -
  let ?q1 = "\<lparr>buffer = [\<lparr>seq_state = 1, item_value = Some (10::nat)\<rparr>,
                  \<lparr>seq_state = 2, item_value = Some 20\<rparr>,
                  \<lparr>seq_state = 3, item_value = Some 30\<rparr>],
        size_q = 3, wrap_at = 6, done_sync = False, write_idx = 3, read_idx = 1\<rparr>"
  let ?q2 = "\<lparr>buffer = [\<lparr>seq_state = 1, item_value = Some (10::nat)\<rparr>,
                  \<lparr>seq_state = 4, item_value = Some 20\<rparr>,
                  \<lparr>seq_state = 3, item_value = Some 30\<rparr>],
        size_q = 3, wrap_at = 6, done_sync = True, write_idx = 3, read_idx = 2\<rparr>"
  let ?q3 = "\<lparr>buffer = [\<lparr>seq_state = 1, item_value = Some (10::nat)\<rparr>,
                  \<lparr>seq_state = 4, item_value = Some 20\<rparr>,
                  \<lparr>seq_state = 5, item_value = Some 30\<rparr>],
        size_q = 3, wrap_at = 6, done_sync = True, write_idx = 3, read_idx = 3\<rparr>"
  have run: ?run by code_simp
  have claim: ?claim by code_simp
  have push1: ?push1 by code_simp
  have fence: ?fence by code_simp
  have pop1: ?pop1 by code_simp
  have push2: ?push2 by code_simp
  have pop2: ?pop2 by code_simp
  have push3: ?push3 by code_simp
  have "try_pop_loop ?q3 (read_idx ?q3) = None"
    by (rule try_pop_loop_spins[where i = 0]) (simp_all add: item_index_def add_wrap_def)
  then have pop3: ?pop3 by (simp add: try_pop_def)
  have l3: "push_sample_loop ?q3 (Some 40) evs = None" for evs
    by (subst push_sample_loop.simps) (use push3 pop3 in simp)
  have l2: "push_sample_loop ?q2 (Some 40) evs = None" for evs
    by (subst push_sample_loop.simps) (use push2 pop2 l3 in simp)
  have l1: "push_sample_loop ?q1 (Some 40) evs = None" for evs
    by (subst push_sample_loop.simps) (use push1 pop1 l2 in simp)
  have none: ?none using l1 by (simp add: push_sample_def)
  show ?thesis
    by (intro conjI) (rule run claim push1 fence pop1 push2 pop2 push3 pop3 none)+
qed

text \<open>
  C4 (\<open>try_pop\<close> protocol), as amended. In every reachable state, with \<open>r\<close> the read
  cursor, \<open>s\<close> the readiness marker of slot \<open>r mod C\<close> and \<open>next = (r + 1) mod M\<close>: \<open>s\<close> is
  \<open>r\<close> or \<open>next\<close>; \<open>try_pop\<close> returns \<open>false\<close>, leaving pack and queue as they were,
  exactly when \<open>s = r\<close>; and when \<open>s = next\<close> it returns \<open>true\<close>, hands the slot's payload to
  \<open>move_or_drop\<close>, stores \<open>(r + C) mod M\<close> into the slot's marker and advances the read
  cursor to \<open>next\<close>. Called with a destination this moves the payload out: the destination
  receives it and the slot keeps the empty handle. Called without destination the
  payload stays in the slot (the theorem after the witness evaluates such a call).
\<close>

theorem try_pop_protocol:
  assumes "reachable q"
  shows "(seq_state (buffer q ! (read_idx q mod size_q q)) = read_idx q \<or>
      seq_state (buffer q ! (read_idx q mod size_q q)) = (read_idx q + 1) mod wrap_at q) \<and>
    wrap_at q = 2 * size_q q \<and>
    (try_pop move_or_drop q result = Some (Inr (False, result, q)) \<longleftrightarrow>
       seq_state (buffer q ! (read_idx q mod size_q q)) = read_idx q) \<and>
    (seq_state (buffer q ! (read_idx q mod size_q q)) = (read_idx q + 1) mod wrap_at q \<longrightarrow>
       try_pop move_or_drop1 q dst =
         Some (Inr (True, item_value (buffer q ! (read_idx q mod size_q q)),
           q\<lparr>read_idx := (read_idx q + 1) mod wrap_at q,
             buffer := (buffer q)[read_idx q mod size_q q :=
               \<lparr>seq_state = (read_idx q + size_q q) mod wrap_at q, item_value = None\<rparr>]\<rparr>)) \<and>
       try_pop move_or_drop0 q () =
         Some (Inr (True, (),
           q\<lparr>read_idx := (read_idx q + 1) mod wrap_at q,
             buffer := (buffer q)[read_idx q mod size_q q :=
               \<lparr>seq_state = (read_idx q + size_q q) mod wrap_at q,
                item_value = item_value (buffer q ! (read_idx q mod size_q q))\<rparr>]\<rparr>)))"
proof -
  have inv: "queue_inv q" by (rule reachable_inv[OF assms])
  have M: "wrap_at q = 2 * size_q q" "read_idx q < wrap_at q" "2 \<le> wrap_at q"
    using inv by (simp_all add: queue_inv_def)
  have neq: "(read_idx q + 1) mod wrap_at q \<noteq> read_idx q"
    by (rule succ_mod_neq[OF M(3,2)])
  show ?thesis
  proof (cases "read_available q = 0")
    case True
    then have "seq_state (buffer q ! (read_idx q mod size_q q)) = read_idx q"
      using marker_at_read[OF inv] by simp
    then show ?thesis
      using neq M(1) try_pop_empty[OF inv True] by simp
  next
    case False
    then have pos: "0 < read_available q" by simp
    then have "seq_state (buffer q ! (read_idx q mod size_q q)) = (read_idx q + 1) mod wrap_at q"
      using marker_at_read[OF inv] by simp
    then show ?thesis
      using neq M(1) try_pop_claim[OF inv pos, of move_or_drop result]
        try_pop_claim[OF inv pos, of move_or_drop1 dst]
        try_pop_claim[OF inv pos, of move_or_drop0 "()"]
      by (simp add: popped_def move_or_drop1_simps move_or_drop0_simps)
  qed
qed

theorem try_pop_protocol_witness:
  "reachable (pushed (new_queue 2 :: nat consumer_queue) (Some (10::nat))) \<and>
   try_pop move_or_drop1 (pushed (new_queue 2 :: nat consumer_queue) (Some (10::nat))) None =
     Some (Inr (True, Some 10, popped (pushed (new_queue 2 :: nat consumer_queue) (Some 10)) None)) \<and>
   seq_state (buffer (popped (pushed (new_queue 2 :: nat consumer_queue) (Some (10::nat))) None) ! 0) = 2 \<and>
   read_idx (popped (pushed (new_queue 2 :: nat consumer_queue) (Some (10::nat))) None) = 1"
proof -
  let ?q = "pushed (new_queue 2 :: nat consumer_queue) (Some (10::nat))"
  have r: "reachable ?q"
    by (rule reachableI[OF _ run_one_push]) simp
  have s: "seq_state (buffer ?q ! (read_idx ?q mod size_q ?q)) = (read_idx ?q + 1) mod wrap_at ?q"
    by (simp add: pushed_def new_queue_def)
  have v: "item_value (buffer ?q ! (read_idx ?q mod size_q ?q)) = Some 10"
    by (simp add: pushed_def new_queue_def)
  note t = try_pop_protocol[OF r, where dst = None, THEN conjunct2, THEN conjunct2,
      THEN conjunct2, THEN mp, OF s, THEN conjunct1]
  have 1: "try_pop move_or_drop1 ?q None = Some (Inr (True, Some 10, popped ?q None))"
    using t unfolding v popped_def .
  have 2: "seq_state (buffer (popped ?q None) ! 0) = 2" "read_idx (popped ?q None) = 1"
    by (simp_all add: popped_def pushed_def new_queue_def)
  show ?thesis by (intro conjI) (rule r 1 2)+
qed

theorem try_pop_without_destination:
  "try_pop move_or_drop0 (pushed (new_queue 2 :: nat consumer_queue) (Some (10::nat))) () =
     Some (Inr (True, (),
       \<lparr>buffer = [\<lparr>seq_state = 2, item_value = Some 10\<rparr>, \<lparr>seq_state = 1, item_value = None\<rparr>],
        size_q = 2, wrap_at = 4, done_sync = False, write_idx = 1, read_idx = 1\<rparr>)) \<and>
   try_pop move_or_drop0 (pushed (new_queue 2 :: nat consumer_queue) (Some (10::nat))) () \<noteq>
     Some (Inr (True, (), popped (pushed (new_queue 2 :: nat consumer_queue) (Some 10)) None))"
  by code_simp

text \<open>
  C5 (FIFO among survivors). The claim: the samples that are never evicted are returned
  by successful pops in exactly the order in which they were pushed. Lemma \<open>fifo_exact\<close>
  proves this for every capacity of at least two, in its exact form: the calls return
  what the drop-oldest queue of the spec returns, the unread samples are its resident
  ones, the samples pushed are, in push order, those that left the queue followed by
  the resident ones, and a sample leaves the queue only returned by a pop, discarded as
  the oldest one by a push onto the full queue, or discarded by a flush. Lemma
  \<open>returned_in_push_order\<close> proves for every capacity that the order is kept. With
  capacity one a sample that was never evicted can be lost, by the defect of C2 (the only
  slot never reads as full). The theorem runs the code there: after \<open>push_sample(A)\<close>,
  \<open>pop_sample\<close> (which returns A) and \<open>push_sample(B)\<close> the sample B is unread;
  \<open>try_push(C)\<close> succeeds on its slot, so \<open>push_sample(C)\<close> overwrites B without a
  \<open>try_pop\<close> and leaves no sample unread; the next \<open>pop_sample\<close> returns the empty handle.
  No eviction has run (\<open>done_sync_\<close> is still false and no fence was made), C is neither
  returned nor unread, and the queue of the spec returns C there.
\<close>

theorem survivor_lost_single_slot:
  "run (new_queue 1) [Push (Some ''A''), Pop 0 0, Push (Some ''B'')] =
     Some (Inr ([Pushed, Popped (Some ''A''), Pushed],
       \<lparr>buffer = [\<lparr>seq_state = 0, item_value = Some ''B''\<rparr>], size_q = 1, wrap_at = 2,
        done_sync = False, write_idx = 0, read_idx = 1\<rparr>,
       [Lock_mutex, Notify_one, Lock_mutex, Notify_one])) \<and>
   contents \<lparr>buffer = [\<lparr>seq_state = 0, item_value = Some ''B''\<rparr>], size_q = 1, wrap_at = 2,
        done_sync = False, write_idx = 0, read_idx = 1\<rparr> = [Some ''B''] \<and>
   try_push \<lparr>buffer = [\<lparr>seq_state = 0, item_value = Some ''B''\<rparr>], size_q = 1, wrap_at = 2,
        done_sync = False, write_idx = 0, read_idx = 1\<rparr> (Some ''C'') =
     Inr (True, \<lparr>buffer = [\<lparr>seq_state = 1, item_value = Some ''C''\<rparr>], size_q = 1, wrap_at = 2,
        done_sync = False, write_idx = 1, read_idx = 1\<rparr>) \<and>
   contents \<lparr>buffer = [\<lparr>seq_state = 1, item_value = Some ''C''\<rparr>], size_q = 1, wrap_at = 2,
        done_sync = False, write_idx = 1, read_idx = 1\<rparr> = [] \<and>
   run (new_queue 1)
     [Push (Some ''A''), Pop 0 0, Push (Some ''B''), Push (Some ''C''), Pop 0 0] =
     Some (Inr ([Pushed, Popped (Some ''A''), Pushed, Pushed, Popped None],
       \<lparr>buffer = [\<lparr>seq_state = 1, item_value = Some ''C''\<rparr>], size_q = 1, wrap_at = 2,
        done_sync = False, write_idx = 1, read_idx = 1\<rparr>,
       [Lock_mutex, Notify_one, Lock_mutex, Notify_one, Lock_mutex, Notify_one])) \<and>
   spec_run 1 []
     [Push (Some ''A''), Pop 0 0, Push (Some ''B''), Push (Some ''C''), Pop 0 0] =
     ([Pushed, Popped (Some ''A''), Pushed, Pushed, Popped (Some ''C'')], [],
      [Returned (Some ''A''), Discarded (Some ''B''), Returned (Some ''C'')])"
  by code_simp

text \<open>
  C6 (\<open>try_push\<close> failure atomicity). In every state whose target slot
  \<open>buffer_[write_idx_ % size_]\<close> exists and carries a readiness marker different from the
  write cursor, \<open>try_push\<close> returns \<open>false\<close> and the queue it leaves is the queue it found:
  write cursor, markers and payloads are unchanged.
\<close>

theorem try_push_failure_atomic:
  assumes "item_index q (write_idx q) = Inr i" "seq_state (buffer q ! i) \<noteq> write_idx q"
  shows "try_push q sample = Inr (False, q)"
  unfolding try_push_def Let_def assms(1) using assms(2) by auto

theorem try_push_failure_atomic_witness:
  "item_index (pushed (pushed (new_queue 2) (Some (1::nat))) (Some 2))
     (write_idx (pushed (pushed (new_queue 2) (Some (1::nat))) (Some 2))) = Inr 0 \<and>
   seq_state (buffer (pushed (pushed (new_queue 2) (Some (1::nat))) (Some 2)) ! 0) \<noteq>
     write_idx (pushed (pushed (new_queue 2) (Some (1::nat))) (Some 2)) \<and>
   try_push (pushed (pushed (new_queue 2) (Some (1::nat))) (Some 2)) (Some 3) =
     Inr (False, pushed (pushed (new_queue 2) (Some (1::nat))) (Some 2))"
proof -
  let ?q = "pushed (pushed (new_queue 2) (Some (1::nat))) (Some 2)"
  have h1: "item_index ?q (write_idx ?q) = Inr 0"
    by (simp add: item_index_def pushed_def new_queue_def)
  have h2: "seq_state (buffer ?q ! 0) \<noteq> write_idx ?q"
    by (simp add: pushed_def new_queue_def)
  show ?thesis
    using h1 h2 try_push_failure_atomic[OF h1 h2, of "Some 3"] by simp
qed

text \<open>
  C7 (non-blocking and timeout pop results). In every reachable state, \<open>pop_sample\<close> with
  a timeout that is not positive makes no synchronisation call (it neither locks the
  mutex nor waits): it returns the handle at the read cursor when a slot holds an unread
  value, and the empty handle, with the queue unchanged, otherwise. For every timeout
  \<open>pop_sample\<close> returns a handle (no fault, and the call ends), and it is the empty handle
  when no slot holds an unread value.
\<close>

theorem pop_sample_nonblocking:
  assumes "reachable q"
  shows "(timeout \<le> 0 \<longrightarrow>
      pop_sample q timeout wakeups =
        (if unread_slots q = 0 then Some (Inr (None, q, []))
         else Some (Inr (item_value (buffer q ! (read_idx q mod size_q q)), popped q None, [])))) \<and>
    (\<exists>r q' evs. pop_sample q timeout wakeups = Some (Inr (r, q', evs)) \<and>
       (unread_slots q = 0 \<longrightarrow> r = None \<and> q' = q))"
proof -
  have inv: "queue_inv q" by (rule reachable_inv[OF assms])
  have n: "unread_slots q = read_available q" by (rule unread_slots_available[OF inv])
  show ?thesis
  proof (cases "read_available q = 0")
    case True
    then show ?thesis using n by (simp add: pop_sample_empty[OF inv True])
  next
    case False
    then have pos: "0 < read_available q" by simp
    show ?thesis
      using n pos by (simp add: pop_sample_nonempty[OF inv pos] head_contents[OF inv pos])
  qed
qed

theorem pop_sample_nonblocking_witness:
  "reachable (pushed ((new_queue 2 :: nat consumer_queue)) (Some (10::nat))) \<and>
   pop_sample (pushed ((new_queue 2 :: nat consumer_queue)) (Some (10::nat))) 0 0 =
     Some (Inr (Some 10, popped (pushed ((new_queue 2 :: nat consumer_queue)) (Some 10)) None, [])) \<and>
   reachable (new_queue 2 :: nat consumer_queue) \<and>
   pop_sample (new_queue 2 :: nat consumer_queue) 0 0 = Some (Inr (None, (new_queue 2 :: nat consumer_queue), []))"
proof -
  let ?q = "pushed ((new_queue 2 :: nat consumer_queue)) (Some (10::nat))"
  have r: "reachable ?q"
    by (rule reachableI[OF _ run_one_push]) simp
  have u: "unread_slots ?q = 1" by code_simp
  have v: "item_value (buffer ?q ! (read_idx ?q mod size_q ?q)) = Some 10"
    by (simp add: pushed_def new_queue_def)
  have r0: "reachable (new_queue 2 :: nat consumer_queue)"
    by (rule reachable_new_queue) simp
  have u0: "unread_slots (new_queue 2 :: nat consumer_queue) = 0" by code_simp
  show ?thesis
    using r r0 pop_sample_nonblocking[OF r, of 0 0] pop_sample_nonblocking[OF r0, of 0 0]
    by (simp add: u v u0)
qed

text \<open>
  C8 (flush exactness). In every reachable state \<open>flush\<close> returns the number of slots
  that hold an unread value and leaves a queue in which none does (\<open>empty()\<close> holds); on
  that queue, and on every queue without unread value, it returns 0 and changes nothing.
  It always returns.
\<close>

theorem flush_exact:
  assumes "reachable q"
  shows "\<exists>q'. flush q = Some (Inr (unread_slots q, q')) \<and> unread_slots q' = 0 \<and> empty_q q' \<and>
    flush q' = Some (Inr (0, q')) \<and> (unread_slots q = 0 \<longrightarrow> q' = q)"
proof -
  have inv: "queue_inv q" by (rule reachable_inv[OF assms])
  obtain q' where q': "flush q = Some (Inr (read_available q, q'))" "queue_inv q'"
    "read_available q' = 0" "read_available q = 0 \<Longrightarrow> q' = q"
    by (rule flush_result[OF inv]) (rule that)
  obtain q'' where q'': "flush q' = Some (Inr (read_available q', q''))"
    "read_available q' = 0 \<Longrightarrow> q'' = q'"
    by (rule flush_result[OF q'(2)]) (rule that)
  have 1: "flush q = Some (Inr (unread_slots q, q'))"
    using q'(1) by (simp only: unread_slots_available[OF inv])
  have 2: "unread_slots q' = 0"
    using q'(3) by (simp only: unread_slots_available[OF q'(2)])
  have 3: "empty_q q'" by (rule inv_empty_q[OF q'(2,3)])
  have 4: "flush q' = Some (Inr (0, q'))"
    using q''(1) q''(2)[OF q'(3)] q'(3) by simp
  have 5: "unread_slots q = 0 \<longrightarrow> q' = q"
    using q'(4) by (simp only: unread_slots_available[OF inv]) blast
  show ?thesis by (intro exI[of _ q'] conjI) (rule 1 2 3 4 5)+
qed

theorem flush_exact_witness:
  "reachable (pushed (pushed ((new_queue 2 :: nat consumer_queue)) (Some (10::nat))) (Some 20)) \<and>
   (\<exists>q'. flush (pushed (pushed ((new_queue 2 :: nat consumer_queue)) (Some (10::nat))) (Some 20)) = Some (Inr (2, q')) \<and>
      unread_slots q' = 0 \<and> empty_q q' \<and> flush q' = Some (Inr (0, q')))"
proof -
  let ?q = "pushed (pushed ((new_queue 2 :: nat consumer_queue)) (Some (10::nat))) (Some 20)"
  have r: "reachable ?q"
    by (rule reachableI[OF _ run_two_pushes]) simp
  have u: "unread_slots ?q = 2" by code_simp
  show ?thesis
    using r flush_exact[OF r] by (auto simp: u)
qed

text \<open>
  C9 (one-time visibility barrier). Along every run of operations from a reachable state
  (in particular from the constructed queue) the acquire fence of \<open>push_sample\<close> is made at
  most once; when \<open>done_sync_\<close> is set at the start it is set at the end and the fence is
  not made at all; and once the fence was made the flag is set.
\<close>

theorem fence_at_most_once:
  assumes "reachable q" "run q ops = Some (Inr (outs, q', evs))"
  shows "count_list evs Acquire_fence \<le> 1 \<and>
    (done_sync q \<longrightarrow> done_sync q' \<and> count_list evs Acquire_fence = 0) \<and>
    (0 < count_list evs Acquire_fence \<longrightarrow> done_sync q')"
  using run_determ_inv(5)[OF reachable_inv[OF assms(1)] assms(2)]
  by (auto simp: fence_once_def split: if_splits)

theorem fence_at_most_once_witness:
  "reachable (new_queue 2 :: nat consumer_queue) \<and>
   run ((new_queue 2 :: nat consumer_queue)) [Push (Some (10::nat)), Push (Some 20), Push (Some 30), Push (Some 40)] =
     Some (Inr ([Pushed, Pushed, Pushed, Pushed],
       \<lparr>buffer = [\<lparr>seq_state = 3, item_value = Some 30\<rparr>, \<lparr>seq_state = 0, item_value = Some 40\<rparr>],
        size_q = 2, wrap_at = 4, done_sync = True, write_idx = 0, read_idx = 2\<rparr>,
       [Lock_mutex, Notify_one, Lock_mutex, Notify_one, Acquire_fence, Lock_mutex,
        Notify_one, Lock_mutex, Notify_one])) \<and>
   count_list [Lock_mutex, Notify_one, Lock_mutex, Notify_one, Acquire_fence, Lock_mutex,
        Notify_one, Lock_mutex, Notify_one] Acquire_fence \<le> 1"
proof -
  have r0: "reachable (new_queue 2 :: nat consumer_queue)"
    by (rule reachable_new_queue) simp
  have h: "run ((new_queue 2 :: nat consumer_queue)) [Push (Some (10::nat)), Push (Some 20), Push (Some 30), Push (Some 40)] =
     Some (Inr ([Pushed, Pushed, Pushed, Pushed],
       \<lparr>buffer = [\<lparr>seq_state = 3, item_value = Some 30\<rparr>, \<lparr>seq_state = 0, item_value = Some 40\<rparr>],
        size_q = 2, wrap_at = 4, done_sync = True, write_idx = 0, read_idx = 2\<rparr>,
       [Lock_mutex, Notify_one, Lock_mutex, Notify_one, Acquire_fence, Lock_mutex,
        Notify_one, Lock_mutex, Notify_one]))"
    by code_simp
  show ?thesis
    using r0 h fence_at_most_once[OF r0 h] by simp
qed

text \<open>
  C10 (index-space closure). In every state reached from a queue constructed with a
  positive capacity \<open>C\<close>, \<open>add_wrap(x, 1)\<close> and \<open>add_wrap(x, C)\<close> are \<open>(x + 1) mod 2C\<close> and
  \<open>(x + C) mod 2C\<close> for every \<open>x\<close> below \<open>2C\<close>, and the write cursor, the read cursor and
  every slot's readiness marker are below \<open>2C\<close>.
\<close>

theorem index_space_closed:
  assumes "0 < C" "run (new_queue C) ops = Some (Inr (outs, q, evs))"
  shows "(\<forall>x<2 * C. add_wrap q x 1 = (x + 1) mod (2 * C) \<and>
            add_wrap q x C = (x + C) mod (2 * C)) \<and>
    write_idx q < 2 * C \<and> read_idx q < 2 * C \<and>
    (\<forall>it\<in>set (buffer q). seq_state it < 2 * C)"
proof -
  have inv: "queue_inv (new_queue C :: 'a consumer_queue)"
    by (rule new_queue_inv[OF assms(1)])
  have q: "queue_inv q" "size_q q = C"
    using run_determ_inv(1,2)[OF inv assms(2)] by (simp_all add: new_queue_def)
  then have M: "wrap_at q = 2 * C" "read_idx q < 2 * C" "write_idx q < 2 * C"
    by (simp_all add: queue_inv_def)
  have "add_wrap q x 1 = (x + 1) mod (2 * C) \<and> add_wrap q x C = (x + C) mod (2 * C)"
    if "x < 2 * C" for x
    using add_wrap_mod[of x q 1] add_wrap_mod[of x q C] that M(1) assms(1) by simp
  moreover have "seq_state it < 2 * C" if "it \<in> set (buffer q)" for it
    using inv_marker_bound[OF q(1) that] M(1) by simp
  ultimately show ?thesis using M(2,3) by blast
qed

theorem index_space_closed_witness:
  "(0::nat) < 2 \<and>
   run (new_queue 2) [Push (Some (1::nat)), Push (Some 2), Push (Some 3), Pop 0 0] =
     Some (Inr ([Pushed, Pushed, Pushed, Popped (Some 2)],
       \<lparr>buffer = [\<lparr>seq_state = 3, item_value = Some 3\<rparr>, \<lparr>seq_state = 3, item_value = None\<rparr>],
        size_q = 2, wrap_at = 4, done_sync = True, write_idx = 3, read_idx = 2\<rparr>,
       [Lock_mutex, Notify_one, Lock_mutex, Notify_one, Acquire_fence, Lock_mutex,
        Notify_one])) \<and>
   add_wrap \<lparr>buffer = [\<lparr>seq_state = 3, item_value = Some (3::nat)\<rparr>,
                        \<lparr>seq_state = 3, item_value = None\<rparr>],
        size_q = 2, wrap_at = 4, done_sync = True, write_idx = 3, read_idx = 2\<rparr> 3 1 = 0 \<and>
   add_wrap \<lparr>buffer = [\<lparr>seq_state = 3, item_value = Some (3::nat)\<rparr>,
                        \<lparr>seq_state = 3, item_value = None\<rparr>],
        size_q = 2, wrap_at = 4, done_sync = True, write_idx = 3, read_idx = 2\<rparr> 3 2 = 1"
proof -
  have h: "run (new_queue 2) [Push (Some (1::nat)), Push (Some 2), Push (Some 3), Pop 0 0] =
     Some (Inr ([Pushed, Pushed, Pushed, Popped (Some 2)],
       \<lparr>buffer = [\<lparr>seq_state = 3, item_value = Some 3\<rparr>, \<lparr>seq_state = 3, item_value = None\<rparr>],
        size_q = 2, wrap_at = 4, done_sync = True, write_idx = 3, read_idx = 2\<rparr>,
       [Lock_mutex, Notify_one, Lock_mutex, Notify_one, Acquire_fence, Lock_mutex,
        Notify_one]))"
    by code_simp
  have p: "(0::nat) < 2" by simp
  show ?thesis
    using h index_space_closed[OF p h] by simp
qed

end
